theory Spec2Isabelle
  imports Main "HOL-Library.Word"
begin

unbundle bit_operations_syntax

section \<open>Data model\<close>

text \<open>
  The two programs of the repository, Tru11 and TBug11, talk to a 68HC11 over a serial
  port. Bytes are \<open>uint8_t\<close>, addresses \<open>uint16_t\<close>. Lengths and chunk sizes are
  \<open>uint32_t\<close> in the source; the loops only compare them, take the smaller of two
  and subtract the smaller from the larger, so they never wrap and are natural numbers
  here.
\<close>

type_synonym byte = "8 word"

text \<open>
  The exceptions of the source. \<open>tru_exception\<close> carries an error id and an
  information string formatted from two values: these two values are the arguments
  of the first three constructors (requested and transferred length, or the two bytes given
  to the echo message). \<open>SERIAL_COM_EXCEPTION\<close> is a \<open>tru_exception\<close> raised
  inside \<open>serial_com\<close> itself, \<open>STD_OUT_OF_RANGE\<close> is the
  \<open>std::out_of_range\<close> of \<open>std::string::substr\<close>.
\<close>

datatype error =
    APP_ERROR_TX_FAIL nat nat
  | APP_ERROR_RX_FAIL nat nat
  | APP_ERROR_ECHO byte byte
  | APP_ERROR_TALKER_TOO_BIG
  | SERIAL_COM_EXCEPTION
  | STD_OUT_OF_RANGE

text \<open>
  A line written to the output file. For an S1 record the fields are the values handed to
  the hexadecimal formatter: the byte count, the address, the data bytes and the checksum.
\<close>

datatype srec = S0 | S1 nat "16 word" "byte list" byte | S9

text \<open>
  Everything the program does to the outside is recorded, in order: a call of
  \<open>write_port\<close> with the bytes handed over and the count it returned
  (\<open>None\<close>: it raised), a call of \<open>read_port\<close> with the requested length and
  the bytes it delivered, a line written to the output file.
\<close>

datatype event =
    WRITE_PORT "byte list" "nat option"
  | READ_PORT nat "byte list option"
  | WRITE_FILE srec

text \<open>
  Class \<open>serial_com\<close>: only its declaration is in the repository, so the two
  transfer functions are parameters, acting on a device state of any type. \<open>read_port\<close>
  returns the bytes it stored in the buffer; the count it returns is their number.
\<close>

record 's serial_com =
  write_port :: "'s \<Rightarrow> byte list \<Rightarrow> nat option \<times> 's"
  read_port :: "'s \<Rightarrow> nat \<Rightarrow> byte list option \<times> 's"

text \<open>Class \<open>cl_my_params\<close>, the fields the protocol engine reads.\<close>

record cl_my_params =
  serial_rxbuf_size :: nat
  serial_txbuf_size :: nat
  serial_prog_txbuf_size :: nat
  srec_datalen :: byte
  verify_config :: bool
  full_file_name :: string
  data :: string
  from_addr :: "32 word"
  to_addr :: "32 word"

type_synonym 's world = "'s \<times> event list"

text \<open>
  A computation on the world either does not return (\<open>None\<close>), or returns an exception
  or a value, and the world it leaves.
\<close>

type_synonym ('a, 's) io = "'s world \<Rightarrow> ((error + 'a) \<times> 's world) option"

definition return_io :: "'a \<Rightarrow> ('a, 's) io" where
  "return_io a w = Some (Inr a, w)"

definition throw_io :: "error \<Rightarrow> ('a, 's) io" where
  "throw_io e w = Some (Inl e, w)"

definition bind_io :: "('a, 's) io \<Rightarrow> ('a \<Rightarrow> ('b, 's) io) \<Rightarrow> ('b, 's) io" where
  "bind_io m f w =
     (case m w of
        None \<Rightarrow> None
      | Some (Inl e, w1) \<Rightarrow> Some (Inl e, w1)
      | Some (Inr a, w') \<Rightarrow> f a w')"

text \<open>\<open>try{ ... }catch(tru_exception &ex){ (void)ex; }\<close>\<close>

definition try_ignore :: "('a, 's) io \<Rightarrow> (unit, 's) io" where
  "try_ignore m w =
     (case m w of
        None \<Rightarrow> None
      | Some (_, w') \<Rightarrow> Some (Inr (), w'))"

definition port_write :: "'s serial_com \<Rightarrow> byte list \<Rightarrow> 's world \<Rightarrow> (error + nat) \<times> 's world" where
  "port_write port bs w =
     (case write_port port (fst w) bs of
        (r, d') \<Rightarrow>
          ((case r of None \<Rightarrow> Inl SERIAL_COM_EXCEPTION | Some n \<Rightarrow> Inr n),
           (d', snd w @ [WRITE_PORT bs r])))"

definition port_read :: "'s serial_com \<Rightarrow> nat \<Rightarrow> 's world \<Rightarrow> (error + byte list) \<times> 's world" where
  "port_read port len w =
     (case read_port port (fst w) len of
        (r, d') \<Rightarrow>
          ((case r of None \<Rightarrow> Inl SERIAL_COM_EXCEPTION | Some bs \<Rightarrow> Inr bs),
           (d', snd w @ [READ_PORT len r])))"

section \<open>Chunked transfer (both programs)\<close>

text \<open>
  \<open>tx_chunk\<close>: a pointer into a buffer is the list of the bytes from that position on,
  so \<open>txbuf_p += chunklen\<close> is \<open>drop chunklen\<close>. With a chunk size of 0 the loop of
  the source never ends unless a write fails; the function is partial for that reason.
\<close>

partial_function (option) tx_chunk ::
  "cl_my_params \<Rightarrow> 's serial_com \<Rightarrow> byte list \<Rightarrow> nat \<Rightarrow> (unit, 's) io" where
  "tx_chunk arg_params arg_serial_com txbuf_p remaining w =
     (if remaining = 0 then Some (Inr (), w)
      else
        let chunklen = (if remaining > serial_txbuf_size arg_params
                        then serial_txbuf_size arg_params else remaining) in
        case port_write arg_serial_com (take chunklen txbuf_p) w of
          (Inl e, w1) \<Rightarrow> Some (Inl e, w1)
        | (Inr xferredlen, w') \<Rightarrow>
            if xferredlen \<noteq> chunklen
            then Some (Inl (APP_ERROR_TX_FAIL chunklen xferredlen), w')
            else tx_chunk arg_params arg_serial_com (drop chunklen txbuf_p)
                   (remaining - chunklen) w')"

declare tx_chunk.simps [code]

text \<open>
  \<open>rx_chunk\<close> returns the bytes it stored from \<open>arg_rxbuf\<close> on; when it does not
  raise there are \<open>arg_len\<close> of them.
\<close>

partial_function (option) rx_chunk ::
  "cl_my_params \<Rightarrow> 's serial_com \<Rightarrow> nat \<Rightarrow> (byte list, 's) io" where
  "rx_chunk arg_params arg_serial_com remaining w =
     (if remaining = 0 then Some (Inr [], w)
      else
        let chunklen = (if remaining > serial_rxbuf_size arg_params
                        then serial_rxbuf_size arg_params else remaining) in
        case port_read arg_serial_com chunklen w of
          (Inl e, w1) \<Rightarrow> Some (Inl e, w1)
        | (Inr bs, w') \<Rightarrow>
            if length bs \<noteq> chunklen
            then Some (Inl (APP_ERROR_RX_FAIL chunklen (length bs)), w')
            else Option.bind (rx_chunk arg_params arg_serial_com (remaining - chunklen) w')
                   (\<lambda>(r, w''). Some ((case r of Inl e \<Rightarrow> Inl e
                                          | Inr rest \<Rightarrow> Inr (bs @ rest)), w'')))"

declare rx_chunk.simps [code]

function verify_echo_from :: "byte list \<Rightarrow> byte list \<Rightarrow> nat \<Rightarrow> nat \<Rightarrow> error + unit" where
  "verify_echo_from arg_txbuf arg_rxbuf arg_len i =
     (if i < arg_len then
        (if arg_txbuf ! i \<noteq> arg_rxbuf ! i
         then Inl (APP_ERROR_ECHO (arg_txbuf ! i) (arg_rxbuf ! i))
         else verify_echo_from arg_txbuf arg_rxbuf arg_len (Suc i))
      else Inr ())"
  by pat_completeness auto
termination
  by (relation "measure (\<lambda>(t, r, n, i). n - i)") auto

definition verify_echo :: "byte list \<Rightarrow> byte list \<Rightarrow> nat \<Rightarrow> error + unit" where
  "verify_echo arg_txbuf arg_rxbuf arg_len = verify_echo_from arg_txbuf arg_rxbuf arg_len 0"

text \<open>TBug11 only: the echo is the complement of what was sent.\<close>

function verify_echo_com_from :: "byte list \<Rightarrow> byte list \<Rightarrow> nat \<Rightarrow> nat \<Rightarrow> error + unit" where
  "verify_echo_com_from arg_txbuf arg_rxbuf arg_len i =
     (if i < arg_len then
        (if arg_txbuf ! i \<noteq> NOT (arg_rxbuf ! i)
         then Inl (APP_ERROR_ECHO (arg_txbuf ! i) (NOT (arg_rxbuf ! i)))
         else verify_echo_com_from arg_txbuf arg_rxbuf arg_len (Suc i))
      else Inr ())"
  by pat_completeness auto
termination
  by (relation "measure (\<lambda>(t, r, n, i). n - i)") auto

definition verify_echo_com :: "byte list \<Rightarrow> byte list \<Rightarrow> nat \<Rightarrow> error + unit" where
  "verify_echo_com arg_txbuf arg_rxbuf arg_len =
     verify_echo_com_from arg_txbuf arg_rxbuf arg_len 0"

text \<open>
  \<open>txrx_chunk\<close> of Tru11: the last argument says whether the echo is compared, and
  it is compared with \<open>verify_echo\<close>. The value returned is what the call leaves in
  the receive buffer.
\<close>

partial_function (option) tru11_txrx_chunk ::
  "cl_my_params \<Rightarrow> 's serial_com \<Rightarrow> byte list \<Rightarrow> nat \<Rightarrow> bool \<Rightarrow> (byte list, 's) io" where
  "tru11_txrx_chunk arg_params arg_serial_com txbuf_p remaining arg_verify_echo w =
     (if remaining = 0 then Some (Inr [], w)
      else
        let chunklen = (if remaining > serial_txbuf_size arg_params
                        then serial_txbuf_size arg_params else remaining) in
        case port_write arg_serial_com (take chunklen txbuf_p) w of
          (Inl e, w1) \<Rightarrow> Some (Inl e, w1)
        | (Inr xferredlen, w1) \<Rightarrow>
            if xferredlen \<noteq> chunklen
            then Some (Inl (APP_ERROR_TX_FAIL chunklen xferredlen), w1)
            else Option.bind (rx_chunk arg_params arg_serial_com chunklen w1)
              (\<lambda>(r, w2).
                 case r of
                   Inl e \<Rightarrow> Some (Inl e, w2)
                 | Inr rs \<Rightarrow>
                     (case (if arg_verify_echo then verify_echo txbuf_p rs chunklen
                            else Inr ()) of
                        Inl e \<Rightarrow> Some (Inl e, w2)
                      | Inr _ \<Rightarrow>
                          Option.bind
                            (tru11_txrx_chunk arg_params arg_serial_com (drop chunklen txbuf_p)
                               (remaining - chunklen) arg_verify_echo w2)
                            (\<lambda>(r3, w3).
                               Some ((case r3 of Inl e \<Rightarrow> Inl e
                                      | Inr rest \<Rightarrow> Inr (rs @ rest)), w3)))))"

declare tru11_txrx_chunk.simps [code]

text \<open>\<open>txrx_chunk\<close> of TBug11 takes one of three echo policies.\<close>

datatype talker_echo_e = TALKER_ECHO_IGNORE | TALKER_ECHO_VERIFY_COM | TALKER_ECHO_VERIFY

partial_function (option) tbug11_txrx_chunk ::
  "cl_my_params \<Rightarrow> 's serial_com \<Rightarrow> byte list \<Rightarrow> nat \<Rightarrow> talker_echo_e \<Rightarrow> (byte list, 's) io" where
  "tbug11_txrx_chunk arg_params arg_serial_com txbuf_p remaining arg_echo_check w =
     (if remaining = 0 then Some (Inr [], w)
      else
        let chunklen = (if remaining > serial_txbuf_size arg_params
                        then serial_txbuf_size arg_params else remaining) in
        case port_write arg_serial_com (take chunklen txbuf_p) w of
          (Inl e, w1) \<Rightarrow> Some (Inl e, w1)
        | (Inr xferredlen, w1) \<Rightarrow>
            if xferredlen \<noteq> chunklen
            then Some (Inl (APP_ERROR_TX_FAIL chunklen xferredlen), w1)
            else Option.bind (rx_chunk arg_params arg_serial_com chunklen w1)
              (\<lambda>(r, w2).
                 case r of
                   Inl e \<Rightarrow> Some (Inl e, w2)
                 | Inr rs \<Rightarrow>
                     (case (case arg_echo_check of
                              TALKER_ECHO_VERIFY \<Rightarrow> verify_echo txbuf_p rs chunklen
                            | TALKER_ECHO_VERIFY_COM \<Rightarrow> verify_echo_com txbuf_p rs chunklen
                            | TALKER_ECHO_IGNORE \<Rightarrow> Inr ()) of
                        Inl e \<Rightarrow> Some (Inl e, w2)
                      | Inr _ \<Rightarrow>
                          Option.bind
                            (tbug11_txrx_chunk arg_params arg_serial_com (drop chunklen txbuf_p)
                               (remaining - chunklen) arg_echo_check w2)
                            (\<lambda>(r3, w3).
                               Some ((case r3 of Inl e \<Rightarrow> Inl e
                                      | Inr rest \<Rightarrow> Inr (rs @ rest)), w3)))))"

declare tbug11_txrx_chunk.simps [code]

text \<open>
  The two guarded reads of the last echoed byte in \<open>txrx_chunk_control_program\<close>:
  \<open>read_port\<close> for one byte at \<open>rx_p\<close>, its count not looked at, then
  \<open>verify_echo\<close> of one byte at \<open>tx_p\<close> against the buffer at \<open>rx_p\<close>, which
  still holds what it held before where nothing arrived.
\<close>

definition read_last_echo :: "'s serial_com \<Rightarrow> byte list \<Rightarrow> byte list \<Rightarrow> (unit, 's) io" where
  "read_last_echo arg_serial_com tx_p rx_p w =
     (case port_read arg_serial_com 1 w of
        (Inl e, w1) \<Rightarrow> Some (Inl e, w1)
      | (Inr bs, w1) \<Rightarrow> Some (verify_echo tx_p (bs @ drop (length bs) rx_p) 1, w1))"

text \<open>
  \<open>txrx_chunk_control_program\<close>, the same text in both programs. \<open>remaining0\<close> is
  \<open>remaining\<close> at the head of the loop. In a last chunk of more than one byte the
  source compares the last echo with \<open>txbuf_p[0]\<close>, the first byte of the chunk.
\<close>

partial_function (option) txrx_chunk_control_program ::
  "cl_my_params \<Rightarrow> 's serial_com \<Rightarrow> byte list \<Rightarrow> byte list \<Rightarrow> nat \<Rightarrow> (unit, 's) io" where
  "txrx_chunk_control_program arg_params arg_serial_com txbuf_p rxbuf_p remaining0 w =
     (if remaining0 = 0 then Some (Inr (), w)
      else
        let chunklen = (if remaining0 > serial_txbuf_size arg_params
                        then serial_txbuf_size arg_params else remaining0);
            remaining = remaining0 - chunklen in
        case port_write arg_serial_com (take chunklen txbuf_p) w of
          (Inl e, w1) \<Rightarrow> Some (Inl e, w1)
        | (Inr xferredlen, w1) \<Rightarrow>
            if xferredlen \<noteq> chunklen
            then Some (Inl (APP_ERROR_TX_FAIL chunklen xferredlen), w1)
            else if remaining = 0 then
              (if chunklen = 1
               then try_ignore (read_last_echo arg_serial_com txbuf_p rxbuf_p) w1
               else Option.bind (rx_chunk arg_params arg_serial_com (chunklen - 1) w1)
                 (\<lambda>(r, w2).
                    case r of
                      Inl e \<Rightarrow> Some (Inl e, w2)
                    | Inr rs \<Rightarrow>
                        (case verify_echo txbuf_p rs (chunklen - 1) of
                           Inl e \<Rightarrow> Some (Inl e, w2)
                         | Inr _ \<Rightarrow>
                             try_ignore
                               (read_last_echo arg_serial_com txbuf_p
                                  (drop (chunklen - 1) rxbuf_p)) w2)))
            else Option.bind (rx_chunk arg_params arg_serial_com chunklen w1)
              (\<lambda>(r, w2).
                 case r of
                   Inl e \<Rightarrow> Some (Inl e, w2)
                 | Inr rs \<Rightarrow>
                     (case verify_echo txbuf_p rs chunklen of
                        Inl e \<Rightarrow> Some (Inl e, w2)
                      | Inr _ \<Rightarrow>
                          txrx_chunk_control_program arg_params arg_serial_com
                            (drop chunklen txbuf_p) (drop chunklen rxbuf_p) remaining w2)))"

declare txrx_chunk_control_program.simps [code]

text \<open>\<open>txrx_chunk_write\<close> of Tru11: no echo is compared.\<close>

partial_function (option) txrx_chunk_write ::
  "cl_my_params \<Rightarrow> 's serial_com \<Rightarrow> byte list \<Rightarrow> nat \<Rightarrow> bool \<Rightarrow> (byte list, 's) io" where
  "txrx_chunk_write arg_params arg_serial_com txbuf_p remaining0 arg_is_prog w =
     (if remaining0 = 0 then Some (Inr [], w)
      else
        let chunklen =
              (if arg_is_prog
               then (if remaining0 > serial_prog_txbuf_size arg_params
                     then serial_prog_txbuf_size arg_params else remaining0)
               else (if remaining0 > serial_txbuf_size arg_params
                     then serial_txbuf_size arg_params else remaining0));
            remaining = remaining0 - chunklen in
        case port_write arg_serial_com (take chunklen txbuf_p) w of
          (Inl e, w1) \<Rightarrow> Some (Inl e, w1)
        | (Inr xferredlen, w1) \<Rightarrow>
            if xferredlen \<noteq> chunklen
            then Some (Inl (APP_ERROR_TX_FAIL chunklen xferredlen), w1)
            else Option.bind (rx_chunk arg_params arg_serial_com chunklen w1)
              (\<lambda>(r, w2).
                 case r of
                   Inl e \<Rightarrow> Some (Inl e, w2)
                 | Inr rs \<Rightarrow>
                     Option.bind
                       (txrx_chunk_write arg_params arg_serial_com (drop chunklen txbuf_p)
                          remaining arg_is_prog w2)
                       (\<lambda>(r3, w3).
                          Some ((case r3 of Inl e \<Rightarrow> Inl e
                                 | Inr rest \<Rightarrow> Inr (rs @ rest)), w3))))"

declare txrx_chunk_write.simps [code]

declare verify_echo_from.simps [simp del] verify_echo_com_from.simps [simp del]

section \<open>Reading the record of events\<close>

fun wr_bytes :: "event \<Rightarrow> byte list" where
  "wr_bytes (WRITE_PORT bs r) = bs"
| "wr_bytes (READ_PORT n r) = []"
| "wr_bytes (WRITE_FILE l) = []"

text \<open>All the bytes handed to \<open>write_port\<close>, in order.\<close>

definition written :: "event list \<Rightarrow> byte list" where
  "written evs = concat (map wr_bytes evs)"

fun rd_len :: "event \<Rightarrow> nat" where
  "rd_len (WRITE_PORT bs r) = 0"
| "rd_len (READ_PORT n r) = n"
| "rd_len (WRITE_FILE l) = 0"

text \<open>The number of bytes asked of \<open>read_port\<close>, over all its calls.\<close>

definition requested :: "event list \<Rightarrow> nat" where
  "requested evs = sum_list (map rd_len evs)"

section \<open>A simulated talker\<close>

text \<open>
  A transport for examples: its state is the bytes the device will still send. Every write
  is taken in full. A read delivers the next bytes, as many as asked for while they last;
  when fewer are left it delivers those (a timeout), or raises if \<open>raising\<close> is set.
\<close>

definition stream_port :: "bool \<Rightarrow> (byte list) serial_com" where
  "stream_port raising =
     \<lparr> write_port = (\<lambda>s bs. (Some (length bs), s)),
       read_port = (\<lambda>s n. if raising \<and> length s < n then (None, s)
                           else (Some (take n s), drop n s)) \<rparr>"

text \<open>The parameters as the constructor of \<open>cl_my_params\<close> sets them, with the given chunk sizes.\<close>

definition params_with :: "nat \<Rightarrow> nat \<Rightarrow> cl_my_params" where
  "params_with rxsize txsize =
     \<lparr> serial_rxbuf_size = rxsize, serial_txbuf_size = txsize, serial_prog_txbuf_size = 2,
       srec_datalen = 16, verify_config = False, full_file_name = [], data = [],
       from_addr = 0, to_addr = 0 \<rparr>"

section \<open>Strings\<close>

text \<open>
  \<open>std::string::substr(pos, n)\<close> raises \<open>std::out_of_range\<close> when \<open>pos\<close> is
  beyond the end of the string, and returns what is there when fewer than \<open>n\<close>
  characters are left.
\<close>

definition substr :: "string \<Rightarrow> nat \<Rightarrow> nat \<Rightarrow> error + string" where
  "substr s pos n = (if pos > length s then Inl STD_OUT_OF_RANGE else Inr (take n (drop pos s)))"

text \<open>
  \<open>strtoul(str, NULL, 16)\<close> of the C library, for the strings of at most four
  characters the program hands to it (no overflow): white space is skipped, a sign and a
  \<open>0x\<close> prefix are accepted, the hexadecimal digits that follow are the value, 0 when
  there are none; a minus sign negates. The program always converts the result to
  \<open>uint8_t\<close> or \<open>uint16_t\<close>, so the value is an integer here and the conversion is
  \<open>word_of_int\<close>.
\<close>

definition isspace :: "char \<Rightarrow> bool" where
  "isspace c \<longleftrightarrow> (of_char c :: nat) = 32 \<or> (9 \<le> (of_char c :: nat) \<and> (of_char c :: nat) \<le> 13)"

definition hex_digit :: "char \<Rightarrow> nat option" where
  "hex_digit c =
     (let n = (of_char c :: nat) in
      if 48 \<le> n \<and> n \<le> 57 then Some (n - 48)
      else if 97 \<le> n \<and> n \<le> 102 then Some (n - 87)
      else if 65 \<le> n \<and> n \<le> 70 then Some (n - 55)
      else None)"

fun hex_value :: "nat \<Rightarrow> string \<Rightarrow> nat" where
  "hex_value acc [] = acc"
| "hex_value acc (c # cs) =
     (case hex_digit c of None \<Rightarrow> acc | Some d \<Rightarrow> hex_value (16 * acc + d) cs)"

definition strtoul_16 :: "string \<Rightarrow> int" where
  "strtoul_16 str =
     (let s1 = dropWhile isspace str;
          neg = (case s1 of [] \<Rightarrow> False | c # cs \<Rightarrow> c = CHR ''-'');
          s2 = (case s1 of [] \<Rightarrow> []
                | c # cs \<Rightarrow> if c = CHR ''-'' \<or> c = CHR ''+'' then cs else s1);
          s3 = (case s2 of
                  z # x # h # cs \<Rightarrow>
                    if z = CHR ''0'' \<and> (x = CHR ''x'' \<or> x = CHR ''X'') \<and> hex_digit h \<noteq> None
                    then h # cs else s2
                | _ \<Rightarrow> s2);
          v = int (hex_value 0 s3)
      in if neg then - v else v)"

section \<open>Bootstrap download (both programs)\<close>

text \<open>
  The inner loop of \<open>send_control_program\<close> over the data of one record.
  \<open>count\<close> is \<open>(uint8_t)(srec_bytecount - SREC_ADDR_CHECKSUM_COUNT)\<close>. The pointer
  \<open>txbuf_p\<close> and \<open>byte_index\<close> advance together, so the store through the pointer
  is a store at \<open>byte_index\<close>.
\<close>

function load_record ::
  "string \<Rightarrow> byte \<Rightarrow> nat \<Rightarrow> byte list \<times> nat \<Rightarrow> error + byte list \<times> nat" where
  "load_record line_str count pad_index (txbuf, byte_index) =
     (if pad_index < unat count then
        (if byte_index = 256 then Inl APP_ERROR_TALKER_TOO_BIG
         else
           (case substr line_str (2 * pad_index + 8) 2 of
              Inl e \<Rightarrow> Inl e
            | Inr t \<Rightarrow>
                load_record line_str count (pad_index + 1)
                  (txbuf[byte_index := word_of_int (strtoul_16 t)], byte_index + 1)))
      else Inr (txbuf, byte_index))"
  by pat_completeness auto
termination
  by (relation "measure (\<lambda>(l, c, i, st). unat c - i)") auto

declare load_record.simps [simp del]

text \<open>The body of the loop over the lines of the talker file.\<close>

definition talker_line :: "string \<Rightarrow> byte list \<times> nat \<Rightarrow> error + byte list \<times> nat" where
  "talker_line line_str st =
     (if length line_str > 8 then
        (if take 2 line_str = ''S1'' then
           (case substr line_str 2 2 of
              Inl e \<Rightarrow> Inl e
            | Inr t \<Rightarrow>
                (let srec_bytecount = (word_of_int (strtoul_16 t) :: byte) in
                 if srec_bytecount > 0 \<and> unat srec_bytecount \<ge> (length line_str - 4) div 2 then
                   (if srec_bytecount > 3 then load_record line_str (srec_bytecount - 3) 0 st
                    else Inr st)
                 else Inr st))
         else Inr st)
      else Inr st)"

text \<open>
  The file is the list of the lines that \<open>read_file_line\<close> delivers, one for each turn
  of the \<open>do ... while(!eof)\<close> loop.
\<close>

primrec read_talker_file :: "string list \<Rightarrow> byte list \<times> nat \<Rightarrow> error + byte list \<times> nat" where
  "read_talker_file [] st = Inr st"
| "read_talker_file (line_str # rest) st =
     (case talker_line line_str st of
        Inl e \<Rightarrow> Inl e
      | Inr st' \<Rightarrow> read_talker_file rest st')"

function pad_talker :: "nat \<Rightarrow> byte list \<times> nat \<Rightarrow> byte list \<times> nat" where
  "pad_talker pad_index (txbuf, byte_index) =
     (if pad_index < 256
      then pad_talker (pad_index + 1) (txbuf[byte_index := 0], byte_index + 1)
      else (txbuf, byte_index))"
  by pat_completeness auto
termination
  by (relation "measure (\<lambda>(i, st). 256 - i)") auto

declare pad_talker.simps [simp del]

text \<open>
  \<open>send_control_program\<close>. \<open>txbuf0\<close> and \<open>rxbuf0\<close> are the two buffers as
  \<open>alloc_buf\<close> returns them (their contents are whatever \<open>malloc\<close> left there).
\<close>

definition send_control_program ::
  "cl_my_params \<Rightarrow> 's serial_com \<Rightarrow> string list \<Rightarrow> byte list \<Rightarrow> byte list \<Rightarrow> (unit, 's) io" where
  "send_control_program arg_params arg_serial_com talker_file txbuf0 rxbuf0 =
     (case read_talker_file talker_file (txbuf0, 0) of
        Inl e \<Rightarrow> throw_io e
      | Inr st \<Rightarrow>
          (case pad_talker (snd st) st of
             (txbuf, byte_index) \<Rightarrow>
               bind_io (tx_chunk arg_params arg_serial_com [0xff] 1)
                 (\<lambda>_. txrx_chunk_control_program arg_params arg_serial_com txbuf rxbuf0 byte_index)))"

text \<open>
  What the claims call the data bytes of a talker file: a line counts when it passes the
  three tests of the loop, it then yields \<open>byte count - 3\<close> bytes, read two characters
  at a time from position 8 on. A line is intact when it is long enough for every one of
  these reads to start inside it.
\<close>

definition talker_bytecount :: "string \<Rightarrow> byte" where
  "talker_bytecount l = word_of_int (strtoul_16 (take 2 (drop 2 l)))"

definition talker_count :: "string \<Rightarrow> nat" where
  "talker_count l =
     (if length l > 8 \<and> take 2 l = ''S1'' \<and> talker_bytecount l > 0 \<and>
         unat (talker_bytecount l) \<ge> (length l - 4) div 2 \<and> talker_bytecount l > 3
      then unat (talker_bytecount l - 3) else 0)"

definition record_byte :: "string \<Rightarrow> nat \<Rightarrow> byte" where
  "record_byte l i = word_of_int (strtoul_16 (take 2 (drop (2 * i + 8) l)))"

definition talker_bytes :: "string \<Rightarrow> byte list" where
  "talker_bytes l = map (record_byte l) [0..<talker_count l]"

definition intact :: "string \<Rightarrow> bool" where
  "intact l \<longleftrightarrow> talker_count l = 0 \<or> 2 * talker_count l + 6 \<le> length l"

text \<open>A record that announces and holds 252 data bytes, all zero, for examples.\<close>

definition long_record :: string where
  "long_record = ''S1FF0000'' @ replicate 506 (CHR ''0'')"

section \<open>Memory access protocol\<close>

definition TALKER_READ_CMD :: byte where "TALKER_READ_CMD = 0x01"

text \<open>The write commands of Tru11.\<close>

definition TALKER_WRITE_CMD :: byte where "TALKER_WRITE_CMD = 0x02"
definition TALKER_WRITE_EE_CMD :: byte where "TALKER_WRITE_EE_CMD = 0x03"
definition TALKER_WRITE_E_CMD :: byte where "TALKER_WRITE_E_CMD = 0x04"
definition TALKER_WRITE_E20_CMD :: byte where "TALKER_WRITE_E20_CMD = 0x05"

text \<open>The write command of TBug11 (\<open>TALKER_WRITE_CMD\<close> in its source).\<close>

definition TBUG11_TALKER_WRITE_CMD :: byte where "TBUG11_TALKER_WRITE_CMD = 0x41"

definition HC11_CONFIG_ADDR :: "16 word" where "HC11_CONFIG_ADDR = 0x103f"

text \<open>\<open>(uint8_t)(addr >> 8 & 0xff)\<close> and \<open>(uint8_t)(addr & 0xff)\<close>.\<close>

definition addr_hi :: "16 word \<Rightarrow> byte" where
  "addr_hi a = ucast (drop_bit 8 a AND 0xff)"

definition addr_lo :: "16 word \<Rightarrow> byte" where
  "addr_lo a = ucast (a AND 0xff)"

text \<open>
  Every memory operation of both programs starts with the same lines: the command byte is
  stored in \<open>txbuf_p[0]\<close> and sent with \<open>txrx_chunk\<close> for one byte, then length
  and address are stored in \<open>txbuf_p[0..2]\<close> and sent with \<open>tx_chunk\<close>. In Tru11 the
  last argument of \<open>txrx_chunk\<close> is \<open>true\<close>, in TBug11 it is
  \<open>TALKER_ECHO_VERIFY_COM\<close>.
\<close>

definition tru11_command ::
  "cl_my_params \<Rightarrow> 's serial_com \<Rightarrow> byte \<Rightarrow> byte \<Rightarrow> 16 word \<Rightarrow> (unit, 's) io" where
  "tru11_command arg_params arg_serial_com cmd len a =
     bind_io (tru11_txrx_chunk arg_params arg_serial_com [cmd] 1 True)
       (\<lambda>_. tx_chunk arg_params arg_serial_com [len, addr_hi a, addr_lo a] 3)"

definition tbug11_command ::
  "cl_my_params \<Rightarrow> 's serial_com \<Rightarrow> byte \<Rightarrow> byte \<Rightarrow> 16 word \<Rightarrow> (unit, 's) io" where
  "tbug11_command arg_params arg_serial_com cmd len a =
     bind_io (tbug11_txrx_chunk arg_params arg_serial_com [cmd] 1 TALKER_ECHO_VERIFY_COM)
       (\<lambda>_. tx_chunk arg_params arg_serial_com [len, addr_hi a, addr_lo a] 3)"

section \<open>EEPROM programming (TBug11)\<close>

definition writemem_byte ::
  "cl_my_params \<Rightarrow> 's serial_com \<Rightarrow> 16 word \<Rightarrow> byte \<Rightarrow> (unit, 's) io" where
  "writemem_byte arg_params arg_serial_com arg_addr val =
     bind_io (tbug11_command arg_params arg_serial_com TBUG11_TALKER_WRITE_CMD 1 arg_addr)
       (\<lambda>_. bind_io
          (tbug11_txrx_chunk arg_params arg_serial_com [val, addr_hi arg_addr, addr_lo arg_addr] 1
             TALKER_ECHO_VERIFY)
          (\<lambda>_. return_io ()))"

text \<open>\<open>TALKER_ERASE_PROG_DELAY\<close> is 0, so none of the four sequences sleeps.\<close>

definition eeprom_prog_byte ::
  "cl_my_params \<Rightarrow> 's serial_com \<Rightarrow> 16 word \<Rightarrow> byte \<Rightarrow> (unit, 's) io" where
  "eeprom_prog_byte arg_params arg_serial_com address b =
     bind_io (writemem_byte arg_params arg_serial_com 0x103b 0x02)
       (\<lambda>_. bind_io (writemem_byte arg_params arg_serial_com address b)
          (\<lambda>_. bind_io (writemem_byte arg_params arg_serial_com 0x103b 0x03)
             (\<lambda>_. writemem_byte arg_params arg_serial_com 0x103b 0x00)))"

definition eeprom_bulk_erase ::
  "cl_my_params \<Rightarrow> 's serial_com \<Rightarrow> 16 word \<Rightarrow> byte \<Rightarrow> (unit, 's) io" where
  "eeprom_bulk_erase arg_params arg_serial_com address b =
     bind_io (writemem_byte arg_params arg_serial_com 0x103b 0x06)
       (\<lambda>_. bind_io (writemem_byte arg_params arg_serial_com address b)
          (\<lambda>_. bind_io (writemem_byte arg_params arg_serial_com 0x103b 0x07)
             (\<lambda>_. writemem_byte arg_params arg_serial_com 0x103b 0x00)))"

definition eeprom_byte_erase ::
  "cl_my_params \<Rightarrow> 's serial_com \<Rightarrow> 16 word \<Rightarrow> byte \<Rightarrow> (unit, 's) io" where
  "eeprom_byte_erase arg_params arg_serial_com address b =
     bind_io (writemem_byte arg_params arg_serial_com 0x103b 0x16)
       (\<lambda>_. bind_io (writemem_byte arg_params arg_serial_com address b)
          (\<lambda>_. bind_io (writemem_byte arg_params arg_serial_com 0x103b 0x17)
             (\<lambda>_. writemem_byte arg_params arg_serial_com 0x103b 0x00)))"

text \<open>
  The loop of \<open>write_ee\<close> over the data bytes of one record, \<open>i\<close> counting up to
  \<open>srec_datacount\<close> and \<open>srec_addr\<close> counting with it.
\<close>

function write_ee_bytes ::
  "cl_my_params \<Rightarrow> 's serial_com \<Rightarrow> string \<Rightarrow> byte \<Rightarrow> nat \<Rightarrow> 16 word \<Rightarrow> (unit, 's) io" where
  "write_ee_bytes arg_params arg_serial_com line_str srec_datacount i srec_addr =
     (if i < unat srec_datacount then
        (case substr line_str (2 * i + 8) 2 of
           Inl e \<Rightarrow> throw_io e
         | Inr t \<Rightarrow>
             (let txbyte = (word_of_int (strtoul_16 t) :: byte) in
              bind_io
                (if srec_addr = HC11_CONFIG_ADDR
                 then eeprom_bulk_erase arg_params arg_serial_com srec_addr txbyte
                 else eeprom_byte_erase arg_params arg_serial_com srec_addr txbyte)
                (\<lambda>_. bind_io (eeprom_prog_byte arg_params arg_serial_com srec_addr txbyte)
                   (\<lambda>_. write_ee_bytes arg_params arg_serial_com line_str srec_datacount
                          (i + 1) (srec_addr + 1)))))
      else return_io ())"
  by pat_completeness auto
termination
  by (relation "measure (\<lambda>(P, port, l, n, i, a). unat n - i)") auto

declare write_ee_bytes.simps [simp del]

text \<open>
  The two values every file operation reads from a record: the data count
  \<open>(uint8_t)strtoul(line_str.substr(2, 2)) - SREC_ADDR_CHECKSUM_COUNT\<close>, stored in a
  \<open>uint8_t\<close>, and the address \<open>(uint16_t)strtoul(line_str.substr(4, 4))\<close>. They are
  read from lines of at least 8 characters only, where \<open>substr\<close> does not raise.
\<close>

definition srec_datacount_of :: "string \<Rightarrow> byte" where
  "srec_datacount_of line_str = word_of_int (strtoul_16 (take 2 (drop 2 line_str))) - 3"

definition srec_addr_of :: "string \<Rightarrow> 16 word" where
  "srec_addr_of line_str = word_of_int (strtoul_16 (take 4 (drop 4 line_str)))"

definition write_ee_line :: "cl_my_params \<Rightarrow> 's serial_com \<Rightarrow> string \<Rightarrow> (unit, 's) io" where
  "write_ee_line arg_params arg_serial_com line_str =
     (if length line_str \<ge> 8 then
        (if take 2 line_str = ''S1'' then
           write_ee_bytes arg_params arg_serial_com line_str (srec_datacount_of line_str) 0
             (srec_addr_of line_str)
         else return_io ())
      else return_io ())"

primrec write_ee :: "cl_my_params \<Rightarrow> 's serial_com \<Rightarrow> string list \<Rightarrow> (unit, 's) io" where
  "write_ee arg_params arg_serial_com [] = return_io ()"
| "write_ee arg_params arg_serial_com (line_str # rest) =
     bind_io (write_ee_line arg_params arg_serial_com line_str)
       (\<lambda>_. write_ee arg_params arg_serial_com rest)"

text \<open>
  What claim C9 says goes over the wire. A single-byte memory write is the command byte
  \<open>0x41\<close>, the length 1, the two address bytes and the value.
\<close>

definition poke :: "16 word \<Rightarrow> byte \<Rightarrow> byte list" where
  "poke a v = [0x41, 0x01, addr_hi a, addr_lo a, v]"

definition ee_byte_sequence :: "16 word \<Rightarrow> byte \<Rightarrow> byte list" where
  "ee_byte_sequence a v =
     (if a = 0x103F
      then poke 0x103B 0x06 @ poke a v @ poke 0x103B 0x07 @ poke 0x103B 0x00
      else poke 0x103B 0x16 @ poke a v @ poke 0x103B 0x17 @ poke 0x103B 0x00) @
     poke 0x103B 0x02 @ poke a v @ poke 0x103B 0x03 @ poke 0x103B 0x00"

definition ee_record_sequence :: "string \<Rightarrow> byte list" where
  "ee_record_sequence l =
     (if length l \<ge> 8 \<and> take 2 l = ''S1''
      then concat (map (\<lambda>i. ee_byte_sequence (srec_addr_of l + of_nat i) (record_byte l i))
                     [0..<unat (srec_datacount_of l)])
      else [])"

text \<open>
  A computation transfers \<open>xs\<close> and \<open>k\<close>: from any world it returns; what it adds
  to the record of events has as written bytes a beginning of \<open>xs\<close> and asks the
  transport for at most \<open>k\<close> bytes; and when it returns without an exception it has
  written all of \<open>xs\<close> and asked for \<open>k\<close> bytes.
\<close>

definition transfers :: "('a, 's) io \<Rightarrow> byte list \<Rightarrow> nat \<Rightarrow> bool" where
  "transfers m xs k \<longleftrightarrow>
     (\<forall>d0 lg. \<exists>r d evs. m (d0, lg) = Some (r, (d, lg @ evs)) \<and>
        (\<exists>j\<le>length xs. written evs = take j xs) \<and> requested evs \<le> k \<and>
        ((\<exists>a. r = Inr a) \<longrightarrow> written evs = xs \<and> requested evs = k))"

text \<open>What an echo policy accepts, for bytes \<open>xs\<close> sent and \<open>rs\<close> received.\<close>

definition echo_ok :: "talker_echo_e \<Rightarrow> byte list \<Rightarrow> byte list \<Rightarrow> bool" where
  "echo_ok pol xs rs =
     (case pol of
        TALKER_ECHO_VERIFY \<Rightarrow> rs = xs
      | TALKER_ECHO_VERIFY_COM \<Rightarrow> rs = map NOT xs
      | TALKER_ECHO_IGNORE \<Rightarrow> True)"


text \<open>The number of bytes \<open>write_ee\<close> asks back for a record: two for each of its 8 memory writes per data byte.\<close>

definition ee_record_reads :: "string \<Rightarrow> nat" where
  "ee_record_reads l = (if length l \<ge> 8 \<and> take 2 l = ''S1'' then 16 * unat (srec_datacount_of l) else 0)"


text \<open>
  What a talker that works sends back for these writes: the complement of the command
  byte \<open>0x41\<close>, then the value.
\<close>

definition poke_echo :: "byte \<Rightarrow> byte list" where
  "poke_echo v = [NOT 0x41, v]"

definition ee_byte_echoes :: "16 word \<Rightarrow> byte \<Rightarrow> byte list" where
  "ee_byte_echoes a v =
     (if a = 0x103F
      then poke_echo 0x06 @ poke_echo v @ poke_echo 0x07 @ poke_echo 0x00
      else poke_echo 0x16 @ poke_echo v @ poke_echo 0x17 @ poke_echo 0x00) @
     poke_echo 0x02 @ poke_echo v @ poke_echo 0x03 @ poke_echo 0x00"

definition ee_record_echoes :: "string \<Rightarrow> byte list" where
  "ee_record_echoes l =
     (if length l \<ge> 8 \<and> take 2 l = ''S1''
      then concat (map (\<lambda>i. ee_byte_echoes (srec_addr_of l + of_nat i) (record_byte l i))
                     [0..<unat (srec_datacount_of l)])
      else [])"

text \<open>The line is long enough for \<open>substr\<close> not to raise at any of its data bytes.\<close>

definition holds_data :: "string \<Rightarrow> bool" where
  "holds_data l \<longleftrightarrow> unat (srec_datacount_of l) = 0 \<or> 2 * unat (srec_datacount_of l) + 6 \<le> length l"

text \<open>
  On the simulated talker that will send \<open>es\<close> and then anything, the computation
  returns without an exception, having taken \<open>es\<close> and written \<open>xs\<close>.
\<close>

definition answered :: "('a, byte list) io \<Rightarrow> byte list \<Rightarrow> byte list \<Rightarrow> bool" where
  "answered m es xs \<longleftrightarrow>
     (\<forall>rest lg. \<exists>a evs. m (es @ rest, lg) = Some (Inr a, (rest, lg @ evs)) \<and> written evs = xs)"

section \<open>Reading memory to a file\<close>

text \<open>
  \<open>write_file\<close> of the output file: the line is recorded. Class \<open>cl_my_file\<close> is not
  in the repository; a write that fails is not modelled.
\<close>

definition write_file :: "srec \<Rightarrow> (unit, 's) io" where
  "write_file l w = Some (Inr (), (fst w, snd w @ [WRITE_FILE l]))"

text \<open>
  The variables of \<open>readmem\<close> that make the S1 records: \<open>srec_line\<close> holds the data
  bytes appended so far (in the source, their two hexadecimal digits each) and
  \<open>srec_addr_str\<close> the address that was formatted into the string of that name.
\<close>

record srec_state =
  datacount :: byte
  checksum :: byte
  srec_line :: "byte list"
  srec_addr_str :: "16 word"
  addr :: "16 word"

text \<open>
  What \<open>readmem\<close> does with one byte read, after printing it: the lines under
  \<open>if(arg_params->full_file_name.size() > 0)\<close>, then \<open>addr++\<close>. The same lines are in
  both programs. \<open>srec_bytecount\<close> is the \<open>uint8_t\<close> sum \<open>3 + srec_datalen\<close>, and
  the comparison \<open>datacount == (srec_bytecount - SREC_ADDR_CHECKSUM_COUNT)\<close> is made on
  \<open>int\<close>.
\<close>

definition readmem_store :: "cl_my_params \<Rightarrow> byte \<Rightarrow> srec_state \<Rightarrow> (srec_state, 's) io" where
  "readmem_store arg_params b st =
     (if length (full_file_name arg_params) > 0 then
        (let st1 = st\<lparr> srec_line := srec_line st @ [b],
                        datacount := datacount st + 1,
                        checksum := checksum st + b \<rparr> in
         if uint (datacount st1) = uint (3 + srec_datalen arg_params) - 3
         then
           bind_io
             (write_file
                (S1 (unat (datacount st1) + 3) (srec_addr_str st1) (srec_line st1)
                   (NOT (checksum st1 + (datacount st1 + 3)))))
             (\<lambda>_. return_io
                (st1\<lparr> datacount := 0,
                      checksum := addr_hi (addr st1 + 1) + addr_lo (addr st1 + 1),
                      srec_line := [],
                      srec_addr_str := addr st1 + 1,
                      addr := addr st1 + 1 \<rparr>))
         else return_io (st1\<lparr> addr := addr st1 + 1 \<rparr>))
      else return_io (st\<lparr> addr := addr st + 1 \<rparr>))"

text \<open>The \<open>for\<close> loop of Tru11 over the bytes of one chunk.\<close>

primrec readmem_bytes :: "cl_my_params \<Rightarrow> byte list \<Rightarrow> srec_state \<Rightarrow> (srec_state, 's) io" where
  "readmem_bytes arg_params [] st = return_io st"
| "readmem_bytes arg_params (b # bs) st =
     bind_io (readmem_store arg_params b st) (readmem_bytes arg_params bs)"

text \<open>The \<open>while\<close> loop of Tru11; \<open>TALKER_MAX_BYTE_COUNT\<close> is 256.\<close>

function tru11_readmem_loop ::
  "cl_my_params \<Rightarrow> 's serial_com \<Rightarrow> nat \<Rightarrow> srec_state \<Rightarrow> (srec_state, 's) io" where
  "tru11_readmem_loop arg_params arg_serial_com remaining st =
     (if remaining = 0 then return_io st
      else
        (let chunklen = (if remaining > 256 then 256 else remaining) in
         bind_io (tru11_command arg_params arg_serial_com TALKER_READ_CMD (of_nat chunklen) (addr st))
           (\<lambda>_. bind_io (rx_chunk arg_params arg_serial_com chunklen)
              (\<lambda>rs. bind_io (readmem_bytes arg_params rs st)
                 (\<lambda>st'. tru11_readmem_loop arg_params arg_serial_com (remaining - chunklen) st')))))"
  by pat_completeness auto
termination
  by (relation "measure (\<lambda>(P, port, n, st). n)") auto

declare tru11_readmem_loop.simps [simp del]

text \<open>The record written for the bytes left over when the range ends inside a line.\<close>

definition readmem_finish :: "cl_my_params \<Rightarrow> srec_state \<Rightarrow> (unit, 's) io" where
  "readmem_finish arg_params st =
     (if length (full_file_name arg_params) > 0 then
        bind_io
          (if datacount st > 0
           then write_file
                  (S1 (unat (datacount st) + 3) (srec_addr_str st) (srec_line st)
                     (NOT (checksum st + (datacount st + 3))))
           else return_io ())
          (\<lambda>_. write_file S9)
      else return_io ())"

text \<open>
  The state before the first byte. \<open>from_addr\<close> is a \<open>uint32_t\<close>; its bits 8 to 15 and
  0 to 7 start the checksum, its low 16 bits are the address.
\<close>

definition readmem_init :: "cl_my_params \<Rightarrow> srec_state" where
  "readmem_init arg_params =
     \<lparr> datacount = 0,
       checksum = ucast (drop_bit 8 (from_addr arg_params) AND 0xff) +
                  ucast (from_addr arg_params AND 0xff),
       srec_line = [],
       srec_addr_str = ucast (from_addr arg_params),
       addr = ucast (from_addr arg_params) \<rparr>"

definition tru11_readmem :: "cl_my_params \<Rightarrow> 's serial_com \<Rightarrow> (unit, 's) io" where
  "tru11_readmem arg_params arg_serial_com =
     bind_io (write_file S0)
       (\<lambda>_. bind_io
          (tru11_readmem_loop arg_params arg_serial_com
             (unat (to_addr arg_params - from_addr arg_params + 1)) (readmem_init arg_params))
          (readmem_finish arg_params))"

text \<open>
  \<open>readmem\<close> of TBug11 is one loop over the bytes of the range. When \<open>chunklen\<close> is 0
  it asks for the next chunk: the command, then \<open>txrx_chunk\<close> with the echo ignored,
  which sends \<open>chunklen\<close> bytes of the transmit buffer (the three parameter bytes and
  what follows them in the buffer) and receives as many. \<open>todo\<close> is the number of turns
  left, \<open>rxbuf_p\<close> the bytes of the chunk not yet looked at. \<open>chunklen--\<close> is on a
  \<open>uint32_t\<close>.
\<close>

function tbug11_readmem_loop ::
  "cl_my_params \<Rightarrow> 's serial_com \<Rightarrow> nat \<Rightarrow> byte list \<Rightarrow> nat \<times> nat \<times> byte list \<Rightarrow> srec_state \<Rightarrow>
   (srec_state, 's) io" where
  "tbug11_readmem_loop arg_params arg_serial_com todo txbuf (chunklen0, remaining0, rxbuf_p0) st =
     (if todo = 0 then return_io st
      else
        bind_io
          (if chunklen0 = 0 then
             (let chunklen = (if remaining0 > 256 then 256 else remaining0);
                  txbuf1 = txbuf[0 := of_nat chunklen, 1 := addr_hi (addr st), 2 := addr_lo (addr st)] in
              bind_io (tbug11_command arg_params arg_serial_com TALKER_READ_CMD (of_nat chunklen) (addr st))
                (\<lambda>_. bind_io
                   (tbug11_txrx_chunk arg_params arg_serial_com txbuf1 chunklen TALKER_ECHO_IGNORE)
                   (\<lambda>rs. return_io (txbuf1, (chunklen, remaining0 - chunklen, rs)))))
           else return_io (txbuf, (chunklen0, remaining0, rxbuf_p0)))
          (\<lambda>(txbuf', (chunklen, remaining, rxbuf_p)).
             bind_io (readmem_store arg_params (hd rxbuf_p) st)
               (\<lambda>st'. tbug11_readmem_loop arg_params arg_serial_com (todo - 1) txbuf'
                        ((if chunklen = 0 then 2 ^ 32 - 1 else chunklen - 1), remaining, tl rxbuf_p)
                        st')))"
  by pat_completeness auto
termination
  by (relation "measure (\<lambda>(P, port, n, rest). n)") auto

declare tbug11_readmem_loop.simps [simp del]

definition tbug11_readmem :: "cl_my_params \<Rightarrow> 's serial_com \<Rightarrow> byte list \<Rightarrow> (unit, 's) io" where
  "tbug11_readmem arg_params arg_serial_com txbuf0 =
     bind_io (write_file S0)
       (\<lambda>_. bind_io
          (tbug11_readmem_loop arg_params arg_serial_com
             (unat (to_addr arg_params - from_addr arg_params + 1)) txbuf0
             (0, unat (to_addr arg_params - from_addr arg_params + 1), [])
             (readmem_init arg_params))
          (readmem_finish arg_params))"

text \<open>
  The checksum rule of claim C7 for a line of the output file: byte count, the two address
  bytes, the data bytes and the checksum add up to \<open>0xFF\<close> modulo 256, which is to say
  that the checksum is \<open>0xFF\<close> less the sum of the others modulo 256.
\<close>

fun srec_ok :: "srec \<Rightarrow> bool" where
  "srec_ok (S1 bytecount a dat ck) \<longleftrightarrow>
     (bytecount + unat (addr_hi a) + unat (addr_lo a) + sum_list (map unat dat) + unat ck) mod 256 = 255 \<and>
     unat ck = 255 - (bytecount + unat (addr_hi a) + unat (addr_lo a) + sum_list (map unat dat)) mod 256"
| "srec_ok S0 \<longleftrightarrow> True"
| "srec_ok S9 \<longleftrightarrow> True"

fun file_of :: "event \<Rightarrow> srec list" where
  "file_of (WRITE_FILE l) = [l]"
| "file_of (WRITE_PORT bs r) = []"
| "file_of (READ_PORT n r) = []"

text \<open>The lines written to the output file, in order.\<close>

definition files :: "event list \<Rightarrow> srec list" where
  "files evs = concat (map file_of evs)"

text \<open>The world \<open>w1\<close> is \<open>w\<close> after some traffic on the port and no line written.\<close>

definition port_ext :: "'s world \<Rightarrow> 's world \<Rightarrow> bool" where
  "port_ext w w1 \<longleftrightarrow> (\<exists>evs. snd w1 = snd w @ evs \<and> files evs = [])"

text \<open>A computation that, where it returns, has added no line to the output file.\<close>

definition port_only :: "('a, 's) io \<Rightarrow> bool" where
  "port_only m \<longleftrightarrow> (\<forall>w y. m w = Some y \<longrightarrow> port_ext w (snd y))"

text \<open>
  A computation that returns from any world, writes only lines that obey the checksum
  rule, and returns a value with the property \<open>Q\<close> when it raises no exception.
\<close>

definition emits_ok :: "('a, 's) io \<Rightarrow> ('a \<Rightarrow> bool) \<Rightarrow> bool" where
  "emits_ok m Q \<longleftrightarrow>
     (\<forall>d0 lg. \<exists>r d evs. m (d0, lg) = Some (r, (d, lg @ evs)) \<and> list_all srec_ok (files evs) \<and>
        (\<forall>a. r = Inr a \<longrightarrow> Q a))"

text \<open>The running checksum is the sum of the address bytes and the data bytes of the line.\<close>

definition checksum_inv :: "srec_state \<Rightarrow> bool" where
  "checksum_inv st \<longleftrightarrow>
     checksum st = addr_hi (srec_addr_str st) + addr_lo (srec_addr_str st) + sum_list (srec_line st)"

text \<open>The parameters of an example: three bytes from \<open>0x1000\<close> are read to a file, two to a line.\<close>

definition read_example :: cl_my_params where
  "read_example = (params_with 256 256)
     \<lparr> srec_datalen := 2, full_file_name := ''out.s19'', from_addr := 0x1000, to_addr := 0x1002 \<rparr>"

section \<open>Verifying memory against a file, writing memory from a file\<close>

text \<open>The counters of \<open>readmem_verify\<close> and of \<open>writemem_file\<close>, all of them \<open>uint32_t\<close>.\<close>

record tally =
  total_databytes :: "32 word"
  line_mismatch_count :: "32 word"
  mismatch_count :: "32 word"
  line_ignore_count :: "32 word"
  ignore_count :: "32 word"

text \<open>
  The loop of \<open>readmem_verify\<close> over the data bytes of a record, the same in both programs:
  \<open>rxbuf\<close> holds the bytes read, \<open>*rxbuf_p\<close> is its byte \<open>i\<close>. \<open>substr\<close> raises
  when the line ends before the byte.
\<close>

function verify_compare ::
  "cl_my_params \<Rightarrow> string \<Rightarrow> byte list \<Rightarrow> byte \<Rightarrow> nat \<Rightarrow> 16 word \<Rightarrow> tally \<Rightarrow> error + tally" where
  "verify_compare arg_params line_str rxbuf srec_datacount i srec_addr t =
     (if i < unat srec_datacount then
        (if \<not> verify_config arg_params \<and> srec_addr = HC11_CONFIG_ADDR then
           verify_compare arg_params line_str rxbuf srec_datacount (i + 1) (srec_addr + 1)
             (t\<lparr> line_ignore_count := line_ignore_count t + 1, ignore_count := ignore_count t + 1 \<rparr>)
         else
           (case substr line_str (2 * i + 8) 2 of
              Inl e \<Rightarrow> Inl e
            | Inr s \<Rightarrow>
                (let file_byte = (word_of_int (strtoul_16 s) :: byte) in
                 verify_compare arg_params line_str rxbuf srec_datacount (i + 1) (srec_addr + 1)
                   (if rxbuf ! i \<noteq> file_byte
                    then t\<lparr> line_mismatch_count := line_mismatch_count t + 1,
                           mismatch_count := mismatch_count t + 1 \<rparr>
                    else t))))
      else Inr t)"
  by pat_completeness auto
termination
  by (relation "measure (\<lambda>(P, l, rx, n, i, a, t). unat n - i)") auto

declare verify_compare.simps [simp del]

text \<open>The second loop of \<open>writemem_file\<close> of Tru11, over what was sent and what came back.\<close>

function write_compare ::
  "cl_my_params \<Rightarrow> byte list \<Rightarrow> byte list \<Rightarrow> byte \<Rightarrow> nat \<Rightarrow> 16 word \<Rightarrow> tally \<Rightarrow> tally" where
  "write_compare arg_params txbuf rxbuf srec_datacount i srec_addr t =
     (if i < unat srec_datacount then
        (if \<not> verify_config arg_params \<and> srec_addr = HC11_CONFIG_ADDR then
           write_compare arg_params txbuf rxbuf srec_datacount (i + 1) (srec_addr + 1)
             (t\<lparr> line_ignore_count := line_ignore_count t + 1, ignore_count := ignore_count t + 1 \<rparr>)
         else
           write_compare arg_params txbuf rxbuf srec_datacount (i + 1) (srec_addr + 1)
             (if txbuf ! i \<noteq> rxbuf ! i
              then t\<lparr> line_mismatch_count := line_mismatch_count t + 1,
                     mismatch_count := mismatch_count t + 1 \<rparr>
              else t))
      else t)"
  by pat_completeness auto
termination
  by (relation "measure (\<lambda>(P, tx, rx, n, i, a, t). unat n - i)") auto

declare write_compare.simps [simp del]

text \<open>The first loop of \<open>writemem_file\<close> of Tru11 stores the data bytes of the line in the transmit buffer.\<close>

function fill_txbuf :: "string \<Rightarrow> byte \<Rightarrow> nat \<Rightarrow> byte list \<Rightarrow> error + byte list" where
  "fill_txbuf line_str srec_datacount i txbuf =
     (if i < unat srec_datacount then
        (case substr line_str (2 * i + 8) 2 of
           Inl e \<Rightarrow> Inl e
         | Inr s \<Rightarrow>
             fill_txbuf line_str srec_datacount (i + 1) (txbuf[i := word_of_int (strtoul_16 s)]))
      else Inr txbuf)"
  by pat_completeness auto
termination
  by (relation "measure (\<lambda>(l, n, i, tx). unat n - i)") auto

declare fill_txbuf.simps [simp del]

text \<open>
  What \<open>readmem_verify\<close> of Tru11 does with one line of the file. What it prints is left
  out. \<open>txbuf_p[0]\<close> to \<open>txbuf_p[2]\<close> are only used for the command and its parameters.
\<close>

definition tru11_verify_line ::
  "cl_my_params \<Rightarrow> 's serial_com \<Rightarrow> string \<Rightarrow> tally \<Rightarrow> (tally, 's) io" where
  "tru11_verify_line arg_params arg_serial_com line_str t =
     (if length line_str \<ge> 8 then
        (if take 2 line_str = ''S1'' then
           (let srec_addr = srec_addr_of line_str;
                srec_datacount = srec_datacount_of line_str in
            bind_io (tru11_command arg_params arg_serial_com TALKER_READ_CMD srec_datacount srec_addr)
              (\<lambda>_. bind_io (rx_chunk arg_params arg_serial_com (unat srec_datacount))
                 (\<lambda>rxbuf.
                    case verify_compare arg_params line_str rxbuf srec_datacount 0 srec_addr
                           (t\<lparr> line_mismatch_count := 0, line_ignore_count := 0 \<rparr>) of
                      Inl e \<Rightarrow> throw_io e
                    | Inr t' \<Rightarrow>
                        return_io (t'\<lparr> total_databytes := total_databytes t' + ucast srec_datacount \<rparr>))))
         else return_io t)
      else return_io t)"

text \<open>
  The same for TBug11, which reads the bytes with \<open>txrx_chunk\<close>, the echo ignored: it sends
  as many bytes of the transmit buffer as it reads. The buffer is kept from line to line.
\<close>

definition tbug11_verify_line ::
  "cl_my_params \<Rightarrow> 's serial_com \<Rightarrow> string \<Rightarrow> byte list \<times> tally \<Rightarrow> (byte list \<times> tally, 's) io" where
  "tbug11_verify_line arg_params arg_serial_com line_str = (\<lambda>(txbuf, t).
     (if length line_str \<ge> 8 then
        (if take 2 line_str = ''S1'' then
           (let srec_addr = srec_addr_of line_str;
                srec_datacount = srec_datacount_of line_str;
                t0 = t\<lparr> total_databytes := total_databytes t + ucast srec_datacount,
                        line_mismatch_count := 0, line_ignore_count := 0 \<rparr>;
                txbuf1 = txbuf[0 := srec_datacount, 1 := addr_hi srec_addr, 2 := addr_lo srec_addr] in
            bind_io (tbug11_command arg_params arg_serial_com TALKER_READ_CMD srec_datacount srec_addr)
              (\<lambda>_. bind_io
                 (tbug11_txrx_chunk arg_params arg_serial_com txbuf1 (unat srec_datacount)
                    TALKER_ECHO_IGNORE)
                 (\<lambda>rxbuf.
                    case verify_compare arg_params line_str rxbuf srec_datacount 0 srec_addr t0 of
                      Inl e \<Rightarrow> throw_io e
                    | Inr t' \<Rightarrow> return_io (txbuf1, t'))))
         else return_io (txbuf, t))
      else return_io (txbuf, t)))"

text \<open>
  What \<open>writemem_file\<close> of Tru11 does with one line of the file: the command and its
  parameters, the data bytes stored in the buffer, the bytes sent and what comes back
  received, then the comparison.
\<close>

definition tru11_writemem_line ::
  "cl_my_params \<Rightarrow> 's serial_com \<Rightarrow> byte \<Rightarrow> string \<Rightarrow> byte list \<times> tally \<Rightarrow>
   (byte list \<times> tally, 's) io" where
  "tru11_writemem_line arg_params arg_serial_com arg_write_cmd_code line_str = (\<lambda>(txbuf, t).
     (if length line_str \<ge> 8 then
        (if take 2 line_str = ''S1'' then
           (let srec_datacount = srec_datacount_of line_str;
                srec_addr = srec_addr_of line_str;
                txbuf1 = txbuf[0 := srec_datacount, 1 := addr_hi srec_addr, 2 := addr_lo srec_addr] in
            bind_io (tru11_command arg_params arg_serial_com arg_write_cmd_code srec_datacount srec_addr)
              (\<lambda>_. case fill_txbuf line_str srec_datacount 0 txbuf1 of
                      Inl e \<Rightarrow> throw_io e
                    | Inr txbuf2 \<Rightarrow>
                        bind_io
                          (txrx_chunk_write arg_params arg_serial_com txbuf2 (unat srec_datacount)
                             (arg_write_cmd_code \<noteq> TALKER_WRITE_CMD))
                          (\<lambda>rxbuf.
                             (let t' = write_compare arg_params txbuf2 rxbuf srec_datacount 0 srec_addr
                                         (t\<lparr> line_mismatch_count := 0, line_ignore_count := 0 \<rparr>) in
                              return_io
                                (txbuf2,
                                 t'\<lparr> total_databytes := total_databytes t' + ucast srec_datacount \<rparr>)))))
         else return_io (txbuf, t))
      else return_io (txbuf, t)))"

text \<open>
  What claim C8 says of the counters, for a record at address \<open>a\<close> with \<open>n\<close> data bytes: the
  positions that are counted as ignored, and the positions that are compared.
\<close>

definition ignored_at :: "cl_my_params \<Rightarrow> 16 word \<Rightarrow> byte \<Rightarrow> nat \<Rightarrow> nat list" where
  "ignored_at arg_params a n i =
     filter (\<lambda>j. \<not> verify_config arg_params \<and> a + of_nat j = 0x103F) [i..<unat n]"

definition compared_at :: "cl_my_params \<Rightarrow> 16 word \<Rightarrow> byte \<Rightarrow> nat \<Rightarrow> nat list" where
  "compared_at arg_params a n i =
     filter (\<lambda>j. verify_config arg_params \<or> a + of_nat j \<noteq> 0x103F) [i..<unat n]"

text \<open>
  The counters after the positions from \<open>i\<close> on, when \<open>want\<close> are the bytes expected and
  \<open>got\<close> the bytes that came back.
\<close>

definition counted :: "cl_my_params \<Rightarrow> 16 word \<Rightarrow> byte \<Rightarrow> nat \<Rightarrow> (nat \<Rightarrow> byte) \<Rightarrow> byte list \<Rightarrow> tally \<Rightarrow> tally" where
  "counted arg_params a n i want got t =
     t\<lparr> line_mismatch_count := line_mismatch_count t +
            of_nat (length (filter (\<lambda>j. got ! j \<noteq> want j) (compared_at arg_params a n i))),
        mismatch_count := mismatch_count t +
            of_nat (length (filter (\<lambda>j. got ! j \<noteq> want j) (compared_at arg_params a n i))),
        line_ignore_count := line_ignore_count t + of_nat (length (ignored_at arg_params a n i)),
        ignore_count := ignore_count t + of_nat (length (ignored_at arg_params a n i)) \<rparr>"

text \<open>
  On the simulated talker that will send \<open>es\<close> and then anything, the computation returns
  having taken \<open>es\<close>, written \<open>xs\<close> and asked for as many bytes as it took, with a result
  of which \<open>Q\<close> holds.
\<close>

definition runs :: "('a, byte list) io \<Rightarrow> byte list \<Rightarrow> byte list \<Rightarrow> (error + 'a \<Rightarrow> bool) \<Rightarrow> bool" where
  "runs m es xs Q \<longleftrightarrow>
     (\<forall>rest lg. \<exists>r evs. m (es @ rest, lg) = Some (r, (rest, lg @ evs)) \<and>
        written evs = xs \<and> requested evs = length es \<and> Q r)"

text \<open>
  Examples. A record for \<open>0x103E\<close> and the CONFIG register \<open>0x103F\<close>; counters at zero;
  a record whose byte count field is 0, without data and with 253 data bytes, all zero.
\<close>

definition config_record :: string where
  "config_record = ''S105103EAABB47''"

definition zero_tally :: tally where
  "zero_tally = \<lparr> total_databytes = 0, line_mismatch_count = 0, mismatch_count = 0,
                  line_ignore_count = 0, ignore_count = 0 \<rparr>"

definition short_record :: string where
  "short_record = ''S1001000''"

definition wide_record :: string where
  "wide_record = ''S1001000'' @ replicate 506 (CHR ''0'')"

section \<open>Echo verification\<close>

lemma verify_echo_from_ok:
  "verify_echo_from tx rx n i = Inr () \<longleftrightarrow> (\<forall>j. i \<le> j \<and> j < n \<longrightarrow> rx ! j = tx ! j)"
proof (induction tx rx n i rule: verify_echo_from.induct)
  case (1 tx rx n i)
  show ?case
  proof (cases "i < n")
    case False
    then show ?thesis by (subst verify_echo_from.simps) auto
  next
    case True
    show ?thesis
    proof (cases "tx ! i = rx ! i")
      case False
      with True show ?thesis by (subst verify_echo_from.simps) auto
    next
      case eq: True
      have "(\<forall>j. i \<le> j \<and> j < n \<longrightarrow> rx ! j = tx ! j) \<longleftrightarrow> (\<forall>j. Suc i \<le> j \<and> j < n \<longrightarrow> rx ! j = tx ! j)"
        using eq by (metis Suc_leI le_neq_implies_less Suc_leD)
      with 1 True eq show ?thesis by (subst verify_echo_from.simps) simp
    qed
  qed
qed

lemma verify_echo_from_first:
  "i \<le> k \<Longrightarrow> k < n \<Longrightarrow> \<forall>j. i \<le> j \<and> j < k \<longrightarrow> rx ! j = tx ! j \<Longrightarrow> rx ! k \<noteq> tx ! k \<Longrightarrow>
   verify_echo_from tx rx n i = Inl (APP_ERROR_ECHO (tx ! k) (rx ! k))"
proof (induction tx rx n i rule: verify_echo_from.induct)
  case (1 tx rx n i)
  show ?case
  proof (cases "i = k")
    case True
    with 1 show ?thesis by (subst verify_echo_from.simps) auto
  next
    case False
    with 1 have lt: "i < k" and eq: "rx ! i = tx ! i" by auto
    then have "i < n" using 1 by simp
    moreover have "verify_echo_from tx rx n (Suc i) = Inl (APP_ERROR_ECHO (tx ! k) (rx ! k))"
      using 1 lt eq by (intro "1.IH") auto
    ultimately show ?thesis using eq by (subst verify_echo_from.simps) simp
  qed
qed

lemma verify_echo_com_from_ok:
  "verify_echo_com_from tx rx n i = Inr () \<longleftrightarrow> (\<forall>j. i \<le> j \<and> j < n \<longrightarrow> rx ! j = NOT (tx ! j))"
proof (induction tx rx n i rule: verify_echo_com_from.induct)
  case (1 tx rx n i)
  show ?case
  proof (cases "i < n")
    case False
    then show ?thesis by (subst verify_echo_com_from.simps) auto
  next
    case True
    show ?thesis
    proof (cases "tx ! i = NOT (rx ! i)")
      case False
      then have "rx ! i \<noteq> NOT (tx ! i)" by auto
      with True False show ?thesis by (subst verify_echo_com_from.simps) auto
    next
      case eq: True
      then have eq': "rx ! i = NOT (tx ! i)" by simp
      have "(\<forall>j. i \<le> j \<and> j < n \<longrightarrow> rx ! j = NOT (tx ! j)) \<longleftrightarrow> (\<forall>j. Suc i \<le> j \<and> j < n \<longrightarrow> rx ! j = NOT (tx ! j))"
        using eq' by (metis Suc_leI le_neq_implies_less Suc_leD)
      with 1 True eq show ?thesis by (subst verify_echo_com_from.simps) simp
    qed
  qed
qed

lemma verify_echo_com_from_first:
  "i \<le> k \<Longrightarrow> k < n \<Longrightarrow> \<forall>j. i \<le> j \<and> j < k \<longrightarrow> rx ! j = NOT (tx ! j) \<Longrightarrow> rx ! k \<noteq> NOT (tx ! k) \<Longrightarrow>
   verify_echo_com_from tx rx n i = Inl (APP_ERROR_ECHO (tx ! k) (NOT (rx ! k)))"
proof (induction tx rx n i rule: verify_echo_com_from.induct)
  case (1 tx rx n i)
  have ne: "tx ! k \<noteq> NOT (rx ! k)" using 1 by auto
  show ?case
  proof (cases "i = k")
    case True
    with 1 ne show ?thesis by (subst verify_echo_com_from.simps) auto
  next
    case False
    with 1 have lt: "i < k" and eq: "rx ! i = NOT (tx ! i)" by auto
    then have "i < n" using 1 by simp
    moreover have "verify_echo_com_from tx rx n (Suc i) = Inl (APP_ERROR_ECHO (tx ! k) (NOT (rx ! k)))"
      using 1 lt eq by (intro "1.IH") auto
    ultimately show ?thesis using eq by (subst verify_echo_com_from.simps) simp
  qed
qed

text \<open>
  Claim C4, as the code has it. \<open>verify_echo\<close> returns normally exactly when every
  received byte equals the byte sent, \<open>verify_echo_com\<close> exactly when every received
  byte is the complement of the byte sent. At the first pair that differs,
  \<open>verify_echo\<close> raises the echo error with the byte sent and the byte received, and
  \<open>verify_echo_com\<close> raises it with the byte sent and the complement of the byte
  received. The error holds these two bytes and no index.
\<close>

theorem echo_policies:
  "len \<le> length tx \<Longrightarrow> len \<le> length rx \<Longrightarrow>
   (verify_echo tx rx len = Inr () \<longleftrightarrow> (\<forall>i<len. rx ! i = tx ! i)) \<and>
   (verify_echo_com tx rx len = Inr () \<longleftrightarrow> (\<forall>i<len. rx ! i = NOT (tx ! i))) \<and>
   (\<forall>k<len. (\<forall>j<k. rx ! j = tx ! j) \<and> rx ! k \<noteq> tx ! k \<longrightarrow>
      verify_echo tx rx len = Inl (APP_ERROR_ECHO (tx ! k) (rx ! k))) \<and>
   (\<forall>k<len. (\<forall>j<k. rx ! j = NOT (tx ! j)) \<and> rx ! k \<noteq> NOT (tx ! k) \<longrightarrow>
      verify_echo_com tx rx len = Inl (APP_ERROR_ECHO (tx ! k) (NOT (rx ! k))))"
proof (intro conjI allI impI)
  show "verify_echo tx rx len = Inr () \<longleftrightarrow> (\<forall>i<len. rx ! i = tx ! i)"
    by (simp add: verify_echo_def verify_echo_from_ok)
  show "verify_echo_com tx rx len = Inr () \<longleftrightarrow> (\<forall>i<len. rx ! i = NOT (tx ! i))"
    by (simp add: verify_echo_com_def verify_echo_com_from_ok)
next
  fix k assume "k < len" "(\<forall>j<k. rx ! j = tx ! j) \<and> rx ! k \<noteq> tx ! k"
  then show "verify_echo tx rx len = Inl (APP_ERROR_ECHO (tx ! k) (rx ! k))"
    unfolding verify_echo_def by (intro verify_echo_from_first) auto
next
  fix k assume "k < len" "(\<forall>j<k. rx ! j = NOT (tx ! j)) \<and> rx ! k \<noteq> NOT (tx ! k)"
  then show "verify_echo_com tx rx len = Inl (APP_ERROR_ECHO (tx ! k) (NOT (rx ! k)))"
    unfolding verify_echo_com_def by (intro verify_echo_com_from_first) auto
qed

theorem echo_policies_witness:
  "(2::nat) \<le> length [5, 7 :: byte] \<and> (2::nat) \<le> length [5, 9 :: byte] \<and>
   verify_echo [5, 7] [5, 7] 2 = Inr () \<and>
   verify_echo_com [5, 7] [250, 248] 2 = Inr () \<and>
   verify_echo [5, 7] [5, 9] 2 = Inl (APP_ERROR_ECHO 7 9) \<and>
   verify_echo_com [5, 7] [250, 9] 2 = Inl (APP_ERROR_ECHO 7 246)"
proof -
  have l: "(2::nat) \<le> length [x, y]" for x y :: byte by simp
  have "\<forall>i<2. [5, 7 :: byte] ! i = [5, 7 :: byte] ! i" by simp
  with echo_policies [OF l l, of 5 7 5 7] have a: "verify_echo [5, 7] [5, 7] 2 = Inr ()"
    by blast
  have "\<forall>i<2. [250, 248 :: byte] ! i = NOT ([5, 7 :: byte] ! i)"
    by (simp add: less_2_cases_iff)
  with echo_policies [OF l l, of 5 7 250 248]
  have b: "verify_echo_com [5, 7] [250, 248] 2 = Inr ()"
    by blast
  have "(1::nat) < 2"
    "(\<forall>j<1. [5, 9 :: byte] ! j = [5, 7 :: byte] ! j) \<and> [5, 9 :: byte] ! 1 \<noteq> [5, 7 :: byte] ! 1"
    by simp_all
  with echo_policies [OF l l, of 5 7 5 9]
  have "verify_echo [5, 7] [5, 9] 2 = Inl (APP_ERROR_ECHO ([5, 7] ! 1) ([5, 9] ! 1))"
    by blast
  then have c: "verify_echo [5, 7] [5, 9] 2 = Inl (APP_ERROR_ECHO 7 9)" by simp
  have "(1::nat) < 2"
    "(\<forall>j<1. [250, 9 :: byte] ! j = NOT ([5, 7 :: byte] ! j)) \<and>
     [250, 9 :: byte] ! 1 \<noteq> NOT ([5, 7 :: byte] ! 1)"
    by simp_all
  with echo_policies [OF l l, of 5 7 250 9]
  have "verify_echo_com [5, 7] [250, 9] 2 = Inl (APP_ERROR_ECHO ([5, 7] ! 1) (NOT ([250, 9] ! 1)))"
    by blast
  then have d: "verify_echo_com [5, 7] [250, 9] 2 = Inl (APP_ERROR_ECHO 7 246)" by simp
  show ?thesis using a b c d by simp
qed

text \<open>
  Claim C4 as it was stated fails where it says what the error carries: a first mismatch at
  index 0 and one at index 1 raise the same error, so no index is in it, and the
  complement check reports 255 where the byte received was 0.
\<close>

theorem echo_error_counterexample:
  "verify_echo [5, 5] [9, 5] 2 = Inl (APP_ERROR_ECHO 5 9) \<and>
   verify_echo [5, 5] [5, 9] 2 = Inl (APP_ERROR_ECHO 5 9) \<and>
   verify_echo_com [1] [0] 1 = Inl (APP_ERROR_ECHO 1 255)"
  by (simp add: verify_echo_def verify_echo_com_def verify_echo_from.simps
        verify_echo_com_from.simps)

section \<open>Chunked transmit\<close>

lemma ceil_div_Suc: "(0::nat) < B \<Longrightarrow> 0 < N \<Longrightarrow> (N + B - 1) div B = Suc ((N - 1) div B)"
proof -
  assume a: "0 < B" "0 < N"
  have "N + B - 1 = (N - 1) + B" using a by arith
  then have "(N + B - 1) div B = ((N - 1) + B) div B" by (rule arg_cong)
  also have "\<dots> = Suc ((N - 1) div B)" using a div_add_self2[of B "N - 1"] by arith
  finally show ?thesis .
qed

lemma ceil_step: "(0::nat) < B \<Longrightarrow> B < N \<Longrightarrow> Suc ((N - B + B - 1) div B) = (N + B - 1) div B"
proof -
  assume a: "0 < B" "B < N"
  have "N - B + B - 1 = N - 1" using a by arith
  then show ?thesis using ceil_div_Suc[of B N] a by simp
qed

lemma ceil_one: "(0::nat) < N \<Longrightarrow> N \<le> B \<Longrightarrow> (N + B - 1) div B = 1"
proof -
  assume a: "0 < N" "N \<le> B"
  have "(N - 1) div B = 0" using a by simp
  then show ?thesis using ceil_div_Suc[of B N] a by simp
qed

lemma tx_chunk_trace:
  assumes B: "1 \<le> serial_txbuf_size P"
  shows "N \<le> length txbuf \<Longrightarrow>
    \<exists>r d' evs. tx_chunk P port txbuf N (d, lg) = Some (r, (d', lg @ evs)) \<and>
      (\<forall>i<length evs. \<exists>res. evs ! i =
          WRITE_PORT (take (min (N - i * serial_txbuf_size P) (serial_txbuf_size P))
                        (drop (i * serial_txbuf_size P) txbuf)) res) \<and>
      length evs \<le> (N + serial_txbuf_size P - 1) div serial_txbuf_size P \<and>
      (r = Inr () \<longrightarrow> length evs = (N + serial_txbuf_size P - 1) div serial_txbuf_size P
                      \<and> written evs = take N txbuf) \<and>
      ((\<exists>c x. r = Inl (APP_ERROR_TX_FAIL c x)) \<longleftrightarrow>
         (\<exists>bs x. WRITE_PORT bs (Some x) \<in> set evs \<and> x \<noteq> length bs))"
proof (induction N arbitrary: txbuf d lg rule: less_induct)
  case (less N)
  define B where "B = serial_txbuf_size P"
  have Bpos: "0 < B" using B by (simp add: B_def)
  show ?case
  proof (cases "N = 0")
    case True
    have "tx_chunk P port txbuf N (d, lg) = Some (Inr (), (d, lg @ []))"
      using True by (subst tx_chunk.simps) simp
    moreover have "(B - 1) div B = 0" using Bpos by simp
    ultimately show ?thesis using True unfolding B_def[symmetric]
      by (intro exI[of _ "Inr ()"] exI[of _ d] exI[of _ "[]"]) (simp add: written_def)
  next
    case False
    define c where "c = (if N > B then B else N)"
    have cpos: "0 < c" and cle: "c \<le> N" and cB: "c \<le> B" using False Bpos by (auto simp: c_def)
    have ltake: "length (take c txbuf) = c" using less.prems cle by simp
    obtain res d1 where wp: "write_port port d (take c txbuf) = (res, d1)" by (cases "write_port port d (take c txbuf)")
    define e0 where "e0 = WRITE_PORT (take c txbuf) res"
    have e0_idx: "e0 = WRITE_PORT (take (min (N - 0 * B) B) (drop (0 * B) txbuf)) res"
      by (simp add: e0_def c_def min_def)
    have pw: "port_write port (take c txbuf) (d, lg) =
        ((case res of None \<Rightarrow> Inl SERIAL_COM_EXCEPTION | Some n \<Rightarrow> Inr n), (d1, lg @ [e0]))"
      by (simp add: port_write_def wp e0_def)
    have cdef: "(if N > serial_txbuf_size P then serial_txbuf_size P else N) = c"
      by (simp add: c_def B_def)
    have unfold: "tx_chunk P port txbuf N (d, lg) =
        (case res of None \<Rightarrow> Some (Inl SERIAL_COM_EXCEPTION, (d1, lg @ [e0]))
         | Some x \<Rightarrow> if x \<noteq> c then Some (Inl (APP_ERROR_TX_FAIL c x), (d1, lg @ [e0]))
                     else tx_chunk P port (drop c txbuf) (N - c) (d1, lg @ [e0]))"
      apply (subst tx_chunk.simps)
      apply (simp only: cdef Let_def pw)
      using False apply (simp split: option.splits)
      done
    have one: "1 \<le> (N + B - 1) div B"
    proof -
      have "B \<le> N + B - 1" using False by simp
      then have "B div B \<le> (N + B - 1) div B" by (rule div_le_mono)
      then show ?thesis using Bpos by simp
    qed
    show ?thesis
    proof (cases res)
      case None
      then have "tx_chunk P port txbuf N (d, lg) = Some (Inl SERIAL_COM_EXCEPTION, (d1, lg @ [e0]))"
        using unfold by simp
      moreover have "\<forall>i<length [e0]. \<exists>res. [e0] ! i =
          WRITE_PORT (take (min (N - i * B) B) (drop (i * B) txbuf)) res"
        using e0_idx by auto
      moreover have "\<not> (\<exists>bs x. WRITE_PORT bs (Some x) \<in> set [e0] \<and> x \<noteq> length bs)"
        using None by (simp add: e0_def)
      ultimately show ?thesis using one unfolding B_def[symmetric]
        by (intro exI[of _ "Inl SERIAL_COM_EXCEPTION"] exI[of _ d1] exI[of _ "[e0]"]) simp
    next
      case (Some x)
      show ?thesis
      proof (cases "x = c")
        case False
        then have "tx_chunk P port txbuf N (d, lg) = Some (Inl (APP_ERROR_TX_FAIL c x), (d1, lg @ [e0]))"
          using unfold Some by simp
        moreover have "\<forall>i<length [e0]. \<exists>res. [e0] ! i =
            WRITE_PORT (take (min (N - i * B) B) (drop (i * B) txbuf)) res"
          using e0_idx by auto
        moreover have "\<exists>bs x. WRITE_PORT bs (Some x) \<in> set [e0] \<and> x \<noteq> length bs"
          using Some False ltake by (auto simp: e0_def)
        ultimately show ?thesis using one unfolding B_def[symmetric]
          by (intro exI[of _ "Inl (APP_ERROR_TX_FAIL c x)"] exI[of _ d1] exI[of _ "[e0]"]) simp
      next
        case True
        have lt: "N - c < N" using cpos cle by simp
        have len': "N - c \<le> length (drop c txbuf)" using less.prems by simp
        from less.IH[OF lt len', of d1 "lg @ [e0]"]
        obtain r d' evs where
          res: "tx_chunk P port (drop c txbuf) (N - c) (d1, lg @ [e0]) = Some (r, (d', (lg @ [e0]) @ evs))"
          and idx: "\<forall>i<length evs. \<exists>res. evs ! i =
              WRITE_PORT (take (min (N - c - i * B) B) (drop (i * B) (drop c txbuf))) res"
          and le: "length evs \<le> (N - c + B - 1) div B"
          and ok: "r = Inr () \<longrightarrow> length evs = (N - c + B - 1) div B \<and> written evs = take (N - c) (drop c txbuf)"
          and iff: "(\<exists>c x. r = Inl (APP_ERROR_TX_FAIL c x)) \<longleftrightarrow>
              (\<exists>bs x. WRITE_PORT bs (Some x) \<in> set evs \<and> x \<noteq> length bs)"
          unfolding B_def[symmetric] by blast
        have res': "tx_chunk P port txbuf N (d, lg) = Some (r, (d', lg @ (e0 # evs)))"
          using unfold Some True res by simp
        have cnt: "Suc ((N - c + B - 1) div B) = (N + B - 1) div B"
        proof (cases "N > B")
          case True
          then show ?thesis using ceil_step[OF Bpos True] by (simp add: c_def)
        next
          case False
          then have "c = N" by (simp add: c_def)
          then show ?thesis using ceil_one[of N B] False \<open>N \<noteq> 0\<close> Bpos by simp
        qed
        have idx': "\<forall>i<length (e0 # evs). \<exists>res. (e0 # evs) ! i =
            WRITE_PORT (take (min (N - i * B) B) (drop (i * B) txbuf)) res"
        proof (intro allI impI)
          fix i assume i: "i < length (e0 # evs)"
          show "\<exists>res. (e0 # evs) ! i = WRITE_PORT (take (min (N - i * B) B) (drop (i * B) txbuf)) res"
          proof (cases i)
            case 0
            then show ?thesis using e0_idx by auto
          next
            case (Suc j)
            then have j: "j < length evs" using i by simp
            then have "evs \<noteq> []" by auto
            then have "N - c \<noteq> 0" using le Bpos by (cases "N - c = 0") auto
            then have cB': "c = B" by (auto simp: c_def split: if_splits)
            from idx j obtain res' where
              "evs ! j = WRITE_PORT (take (min (N - c - j * B) B) (drop (j * B) (drop c txbuf))) res'"
              by blast
            moreover have "N - c - j * B = N - i * B" using Suc cB' by simp
            moreover have "drop (j * B) (drop c txbuf) = drop (i * B) txbuf"
              using Suc cB' by (simp add: add.commute)
            ultimately show ?thesis using Suc by auto
          qed
        qed
        have le': "length (e0 # evs) \<le> (N + B - 1) div B" using le cnt by simp
        have ok': "r = Inr () \<longrightarrow> length (e0 # evs) = (N + B - 1) div B \<and> written (e0 # evs) = take N txbuf"
        proof
          assume r: "r = Inr ()"
          with ok have a: "length evs = (N - c + B - 1) div B" and b: "written evs = take (N - c) (drop c txbuf)" by auto
          have "written (e0 # evs) = take c txbuf @ take (N - c) (drop c txbuf)"
            using b by (simp add: written_def e0_def)
          also have "\<dots> = take N txbuf" using cle by (metis le_add_diff_inverse take_add)
          finally show "length (e0 # evs) = (N + B - 1) div B \<and> written (e0 # evs) = take N txbuf"
            using a cnt by simp
        qed
        have iff': "(\<exists>c x. r = Inl (APP_ERROR_TX_FAIL c x)) \<longleftrightarrow>
              (\<exists>bs x. WRITE_PORT bs (Some x) \<in> set (e0 # evs) \<and> x \<noteq> length bs)"
          using iff Some True ltake by (auto simp: e0_def)
        show ?thesis unfolding B_def[symmetric]
          using res' idx' le' ok' iff' by blast
      qed
    qed
  qed
qed

text \<open>
  Claim C3. For a length \<open>N \<ge> 1\<close> and a transmit chunk size \<open>B \<ge> 1\<close>,
  \<open>tx_chunk\<close> returns; all it does is call \<open>write_port\<close>; write number \<open>i\<close>
  hands over the \<open>min (N - i * B) B\<close> bytes that follow the first \<open>i * B\<close>, which is
  at most \<open>B\<close>; when no exception is raised there are \<open>(N + B - 1) div B\<close> writes
  and their sizes add up to \<open>N\<close>; and the transmit failure is raised exactly when a
  write returned a count other than the size it was given.
\<close>

theorem tx_chunk_chunking:
  "1 \<le> N \<Longrightarrow> 1 \<le> serial_txbuf_size P \<Longrightarrow> N \<le> length txbuf \<Longrightarrow>
   \<exists>r d' evs. tx_chunk P port txbuf N (d, lg) = Some (r, (d', lg @ evs)) \<and>
     (\<forall>i<length evs. \<exists>res.
        evs ! i = WRITE_PORT (take (min (N - i * serial_txbuf_size P) (serial_txbuf_size P))
                               (drop (i * serial_txbuf_size P) txbuf)) res \<and>
        length (wr_bytes (evs ! i)) = min (N - i * serial_txbuf_size P) (serial_txbuf_size P) \<and>
        length (wr_bytes (evs ! i)) \<le> serial_txbuf_size P) \<and>
     (r = Inr () \<longrightarrow>
        length evs = (N + serial_txbuf_size P - 1) div serial_txbuf_size P \<and>
        sum_list (map (\<lambda>e. length (wr_bytes e)) evs) = N) \<and>
     ((\<exists>c x. r = Inl (APP_ERROR_TX_FAIL c x)) \<longleftrightarrow>
        (\<exists>bs x. WRITE_PORT bs (Some x) \<in> set evs \<and> x \<noteq> length bs))"
proof -
  assume N: "1 \<le> N" and B: "1 \<le> serial_txbuf_size P" and len: "N \<le> length txbuf"
  define B' where "B' = serial_txbuf_size P"
  from tx_chunk_trace [OF B len, of port d lg]
  obtain r d' evs where
    res: "tx_chunk P port txbuf N (d, lg) = Some (r, (d', lg @ evs))"
    and idx: "\<forall>i<length evs. \<exists>res. evs ! i =
        WRITE_PORT (take (min (N - i * B') B') (drop (i * B') txbuf)) res"
    and cnt: "length evs \<le> (N + B' - 1) div B'"
    and ok: "r = Inr () \<longrightarrow> length evs = (N + B' - 1) div B' \<and> written evs = take N txbuf"
    and iff: "(\<exists>c x. r = Inl (APP_ERROR_TX_FAIL c x)) \<longleftrightarrow>
        (\<exists>bs x. WRITE_PORT bs (Some x) \<in> set evs \<and> x \<noteq> length bs)"
    unfolding B'_def by blast
  have idx': "\<forall>i<length evs. \<exists>res.
        evs ! i = WRITE_PORT (take (min (N - i * B') B') (drop (i * B') txbuf)) res \<and>
        length (wr_bytes (evs ! i)) = min (N - i * B') B' \<and>
        length (wr_bytes (evs ! i)) \<le> B'"
  proof (intro allI impI)
    fix i assume "i < length evs"
    with idx obtain res where
      e: "evs ! i = WRITE_PORT (take (min (N - i * B') B') (drop (i * B') txbuf)) res" by blast
    have "min (N - i * B') B' \<le> length txbuf - i * B'" using len by simp
    then have "length (wr_bytes (evs ! i)) = min (N - i * B') B'" using e by simp
    then show "\<exists>res. evs ! i = WRITE_PORT (take (min (N - i * B') B') (drop (i * B') txbuf)) res \<and>
        length (wr_bytes (evs ! i)) = min (N - i * B') B' \<and> length (wr_bytes (evs ! i)) \<le> B'"
      using e by simp
  qed
  have ok': "r = Inr () \<longrightarrow> length evs = (N + B' - 1) div B' \<and>
      sum_list (map (\<lambda>e. length (wr_bytes e)) evs) = N"
  proof
    assume "r = Inr ()"
    with ok have a: "length evs = (N + B' - 1) div B'" and b: "written evs = take N txbuf" by auto
    have "sum_list (map (\<lambda>e. length (wr_bytes e)) evs) = length (written evs)"
      by (simp add: written_def length_concat comp_def)
    then show "length evs = (N + B' - 1) div B' \<and> sum_list (map (\<lambda>e. length (wr_bytes e)) evs) = N"
      using a b len by simp
  qed
  show ?thesis unfolding B'_def [symmetric] using res idx' ok' iff by blast
qed

theorem tx_chunk_chunking_witness:
  "(1::nat) \<le> 5 \<and> 1 \<le> serial_txbuf_size (params_with 256 2) \<and> (5::nat) \<le> length [1, 2, 3, 4, 5 :: byte] \<and>
   tx_chunk (params_with 256 2) (stream_port False) [1, 2, 3, 4, 5] 5 ([], []) =
     Some (Inr (), ([], [WRITE_PORT [1, 2] (Some 2), WRITE_PORT [3, 4] (Some 2), WRITE_PORT [5] (Some 1)])) \<and>
   (\<exists>r d' evs. tx_chunk (params_with 256 2) (stream_port False) [1, 2, 3, 4, 5] 5 ([], []) = Some (r, (d', [] @ evs)) \<and>
     (r = Inr () \<longrightarrow> length evs = (5 + 2 - 1) div 2 \<and>
        sum_list (map (\<lambda>e. length (wr_bytes e)) evs) = 5))"
proof -
  have h: "(1::nat) \<le> 5" "1 \<le> serial_txbuf_size (params_with 256 2)"
    "(5::nat) \<le> length [1, 2, 3, 4, 5 :: byte]"
    by (simp_all add: params_with_def)
  have e: "tx_chunk (params_with 256 2) (stream_port False) [1, 2, 3, 4, 5] 5 ([], []) =
     Some (Inr (), ([], [WRITE_PORT [1, 2] (Some 2), WRITE_PORT [3, 4] (Some 2), WRITE_PORT [5] (Some 1)]))"
    by (simp add: tx_chunk.simps params_with_def stream_port_def port_write_def)
  from tx_chunk_chunking [OF h, of "stream_port False" "[]" "[]"] obtain r d' evs where
    "tx_chunk (params_with 256 2) (stream_port False) [1, 2, 3, 4, 5] 5 ([], []) = Some (r, (d', [] @ evs))"
    "r = Inr () \<longrightarrow> length evs = (5 + serial_txbuf_size (params_with 256 2) - 1) div serial_txbuf_size (params_with 256 2) \<and>
        sum_list (map (\<lambda>e. length (wr_bytes e)) evs) = 5"
    by blast
  then have "\<exists>r d' evs. tx_chunk (params_with 256 2) (stream_port False) [1, 2, 3, 4, 5] 5 ([], []) = Some (r, (d', [] @ evs)) \<and>
     (r = Inr () \<longrightarrow> length evs = (5 + 2 - 1) div 2 \<and>
        sum_list (map (\<lambda>e. length (wr_bytes e)) evs) = 5)"
    by (simp add: params_with_def)
  with h e show ?thesis by blast
qed

section \<open>Bootstrap download: the last echoed byte\<close>

lemma rx_chunk_0: "rx_chunk P port 0 w = Some (Inr [], w)"
  by (subst rx_chunk.simps) simp

lemma rx_chunk_step:
  assumes "0 < n" and "c = (if n > serial_rxbuf_size P then serial_rxbuf_size P else n)"
    and "read_port port d c = (res, d1)"
  shows "rx_chunk P port n (d, lg) =
    (case res of
       None \<Rightarrow> Some (Inl SERIAL_COM_EXCEPTION, (d1, lg @ [READ_PORT c res]))
     | Some bs \<Rightarrow>
         if length bs \<noteq> c
         then Some (Inl (APP_ERROR_RX_FAIL c (length bs)), (d1, lg @ [READ_PORT c res]))
         else Option.bind (rx_chunk P port (n - c) (d1, lg @ [READ_PORT c res]))
                (\<lambda>(r, w2). Some ((case r of Inl e \<Rightarrow> Inl e | Inr rest \<Rightarrow> Inr (bs @ rest)), w2)))"
proof -
  have pr: "port_read port c (d, lg) =
      ((case res of None \<Rightarrow> Inl SERIAL_COM_EXCEPTION | Some bs \<Rightarrow> Inr bs), (d1, lg @ [READ_PORT c res]))"
    by (simp add: port_read_def assms(3))
  show ?thesis
    apply (subst rx_chunk.simps)
    apply (simp only: assms(2)[symmetric] Let_def pr)
    using assms(1) apply (simp split: option.splits)
    done
qed

lemma rx_chunk_stream_ok:
  assumes B: "1 \<le> serial_rxbuf_size P"
  shows "n \<le> length s \<Longrightarrow>
    \<exists>evs. rx_chunk P (stream_port f) n (s, lg) = Some (Inr (take n s), (drop n s, lg @ evs))
       \<and> written evs = []"
proof (induction n arbitrary: s lg rule: less_induct)
  case (less n)
  show ?case
  proof (cases "n = 0")
    case True
    then show ?thesis by (intro exI[of _ "[]"]) (simp add: rx_chunk_0 written_def)
  next
    case False
    define c where "c = (if n > serial_rxbuf_size P then serial_rxbuf_size P else n)"
    have cpos: "0 < c" and cle: "c \<le> n" using False B by (auto simp: c_def)
    have rp: "read_port (stream_port f) s c = (Some (take c s), drop c s)"
      using less.prems cle by (simp add: stream_port_def)
    have lt: "n - c < n" using cpos cle by simp
    have len: "n - c \<le> length (drop c s)" using less.prems by simp
    from less.IH[OF lt len, of "lg @ [READ_PORT c (Some (take c s))]"] obtain evs where
      r: "rx_chunk P (stream_port f) (n - c) (drop c s, lg @ [READ_PORT c (Some (take c s))]) =
           Some (Inr (take (n - c) (drop c s)), (drop (n - c) (drop c s), (lg @ [READ_PORT c (Some (take c s))]) @ evs))"
      and w: "written evs = []"
      by blast
    have tk: "take c s @ take (n - c) (drop c s) = take n s"
      using cle by (metis le_add_diff_inverse take_add)
    have dr: "drop (n - c) (drop c s) = drop n s" using cle by simp
    have lc: "length (take c s) = c" using less.prems cle by simp
    have "rx_chunk P (stream_port f) n (s, lg) =
       Some (Inr (take n s), (drop n s, lg @ (READ_PORT c (Some (take c s)) # evs)))"
      using rx_chunk_step[OF _ c_def rp, of lg] False r tk dr lc by simp
    moreover have "written (READ_PORT c (Some (take c s)) # evs) = []" using w by (simp add: written_def)
    ultimately show ?thesis by blast
  qed
qed

lemma rx_chunk_stream_short:
  assumes B: "1 \<le> serial_rxbuf_size P"
  shows "length s < n \<Longrightarrow>
    \<exists>d evs c x. rx_chunk P (stream_port f) n (s, lg) =
       Some (Inl (if f then SERIAL_COM_EXCEPTION else APP_ERROR_RX_FAIL c x), (d, lg @ evs))"
proof (induction n arbitrary: s lg rule: less_induct)
  case (less n)
  define c where "c = (if n > serial_rxbuf_size P then serial_rxbuf_size P else n)"
  have npos: "0 < n" using less.prems by simp
  have cpos: "0 < c" and cle: "c \<le> n" using npos B by (auto simp: c_def)
  show ?case
  proof (cases "length s < c")
    case True
    show ?thesis
    proof (cases f)
      case True
      have rp: "read_port (stream_port f) s c = (None, s)"
        using True \<open>length s < c\<close> by (simp add: stream_port_def)
      show ?thesis using rx_chunk_step[OF npos c_def rp, of lg] True by auto
    next
      case False
      have rp: "read_port (stream_port f) s c = (Some (take c s), drop c s)"
        using False by (simp add: stream_port_def)
      have "length (take c s) = length s" using True by simp
      then have "rx_chunk P (stream_port f) n (s, lg) =
          Some (Inl (APP_ERROR_RX_FAIL c (length s)), (drop c s, lg @ [READ_PORT c (Some (take c s))]))"
        using rx_chunk_step[OF npos c_def rp, of lg] True by simp
      then show ?thesis using False by auto
    qed
  next
    case False
    then have cs: "c \<le> length s" by simp
    have rp: "read_port (stream_port f) s c = (Some (take c s), drop c s)"
      using cs by (simp add: stream_port_def)
    have lt: "n - c < n" using cpos cle by simp
    have len: "length (drop c s) < n - c" using less.prems cs by simp
    from less.IH[OF lt len, of "lg @ [READ_PORT c (Some (take c s))]"] obtain d evs c' x where
      r: "rx_chunk P (stream_port f) (n - c) (drop c s, lg @ [READ_PORT c (Some (take c s))]) =
         Some (Inl (if f then SERIAL_COM_EXCEPTION else APP_ERROR_RX_FAIL c' x),
               (d, (lg @ [READ_PORT c (Some (take c s))]) @ evs))"
      by blast
    have "length (take c s) = c" using cs by simp
    then have "rx_chunk P (stream_port f) n (s, lg) =
         Some (Inl (if f then SERIAL_COM_EXCEPTION else APP_ERROR_RX_FAIL c' x),
               (d, lg @ (READ_PORT c (Some (take c s)) # evs)))"
      using rx_chunk_step[OF npos c_def rp, of lg] r by simp
    then show ?thesis by blast
  qed
qed


lemma rx_chunk_any:
  assumes B: "1 \<le> serial_rxbuf_size P"
  shows "\<exists>r d evs. rx_chunk P port n (d0, lg) = Some (r, (d, lg @ evs)) \<and> written evs = [] \<and>
           (\<forall>bs. r = Inr bs \<longrightarrow> length bs = n)"
proof (induction n arbitrary: d0 lg rule: less_induct)
  case (less n)
  show ?case
  proof (cases "n = 0")
    case True
    then show ?thesis
      by (intro exI[of _ "Inr []"] exI[of _ d0] exI[of _ "[]"]) (simp add: rx_chunk_0 written_def)
  next
    case False
    then have npos: "0 < n" by simp
    define c where "c = (if n > serial_rxbuf_size P then serial_rxbuf_size P else n)"
    have cpos: "0 < c" and cle: "c \<le> n" using False B by (auto simp: c_def)
    obtain res d1 where rp: "read_port port d0 c = (res, d1)" by (cases "read_port port d0 c")
    define e0 where "e0 = READ_PORT c res"
    have we0: "written [e0] = []" by (simp add: written_def e0_def)
    note step = rx_chunk_step[OF npos c_def rp, of lg, folded e0_def]
    show ?thesis
    proof (cases res)
      case None
      then have "rx_chunk P port n (d0, lg) = Some (Inl SERIAL_COM_EXCEPTION, (d1, lg @ [e0]))"
        using step by simp
      then show ?thesis using we0 by blast
    next
      case (Some bs)
      show ?thesis
      proof (cases "length bs = c")
        case False
        then have "rx_chunk P port n (d0, lg) = Some (Inl (APP_ERROR_RX_FAIL c (length bs)), (d1, lg @ [e0]))"
          using step Some by simp
        then show ?thesis using we0 by blast
      next
        case True
        have lt: "n - c < n" using cpos cle by simp
        from less.IH[OF lt, of d1 "lg @ [e0]"] obtain r d evs where
          r: "rx_chunk P port (n - c) (d1, lg @ [e0]) = Some (r, (d, (lg @ [e0]) @ evs))"
          and w: "written evs = []" and l: "\<forall>bs. r = Inr bs \<longrightarrow> length bs = n - c"
          by blast
        have "rx_chunk P port n (d0, lg) =
           Some ((case r of Inl e \<Rightarrow> Inl e | Inr rest \<Rightarrow> Inr (bs @ rest)), (d, lg @ (e0 # evs)))"
          using step Some True r by simp
        moreover have "written (e0 # evs) = []" using w by (simp add: written_def e0_def)
        moreover have "\<forall>xs. (case r of Inl e \<Rightarrow> Inl e | Inr rest \<Rightarrow> Inr (bs @ rest)) = Inr xs \<longrightarrow> length xs = n"
          using l True cle by (auto split: sum.splits)
        ultimately show ?thesis by blast
      qed
    qed
  qed
qed

lemma try_read_last_echo:
  "\<exists>d evs. try_ignore (read_last_echo port tx rx) (d0, lg) = Some (Inr (), (d, lg @ evs)) \<and>
     written evs = []"
proof -
  obtain res d1 where rp: "read_port port d0 1 = (res, d1)" by (cases "read_port port d0 1")
  have pr: "port_read port 1 (d0, lg) =
      ((case res of None \<Rightarrow> Inl SERIAL_COM_EXCEPTION | Some bs \<Rightarrow> Inr bs), (d1, lg @ [READ_PORT 1 res]))"
    by (simp only: port_read_def fst_conv snd_conv rp prod.case)
  have "try_ignore (read_last_echo port tx rx) (d0, lg) = Some (Inr (), (d1, lg @ [READ_PORT 1 res]))"
    unfolding try_ignore_def read_last_echo_def pr by (simp split: option.splits)
  moreover have "written [READ_PORT 1 res] = []" by (simp add: written_def)
  ultimately show ?thesis by blast
qed

lemma ccp_0: "txrx_chunk_control_program P port tx rxbuf 0 w = Some (Inr (), w)"
  by (subst txrx_chunk_control_program.simps) simp

lemma ccp_step:
  assumes "0 < N" and "c = (if N > serial_txbuf_size P then serial_txbuf_size P else N)"
    and "write_port port d (take c tx) = (res, d1)"
  shows "txrx_chunk_control_program P port tx rxbuf N (d, lg) =
    (case res of
       None \<Rightarrow> Some (Inl SERIAL_COM_EXCEPTION, (d1, lg @ [WRITE_PORT (take c tx) res]))
     | Some x \<Rightarrow>
        if x \<noteq> c then Some (Inl (APP_ERROR_TX_FAIL c x), (d1, lg @ [WRITE_PORT (take c tx) res]))
        else if N - c = 0 then
          (if c = 1
           then try_ignore (read_last_echo port tx rxbuf) (d1, lg @ [WRITE_PORT (take c tx) res])
           else Option.bind (rx_chunk P port (c - 1) (d1, lg @ [WRITE_PORT (take c tx) res]))
                 (\<lambda>(r, w2).
                    case r of
                      Inl e \<Rightarrow> Some (Inl e, w2)
                    | Inr rs \<Rightarrow>
                        (case verify_echo tx rs (c - 1) of
                           Inl e \<Rightarrow> Some (Inl e, w2)
                         | Inr _ \<Rightarrow>
                             try_ignore (read_last_echo port tx (drop (c - 1) rxbuf)) w2)))
        else Option.bind (rx_chunk P port c (d1, lg @ [WRITE_PORT (take c tx) res]))
              (\<lambda>(r, w2).
                 case r of
                   Inl e \<Rightarrow> Some (Inl e, w2)
                 | Inr rs \<Rightarrow>
                     (case verify_echo tx rs c of
                        Inl e \<Rightarrow> Some (Inl e, w2)
                      | Inr _ \<Rightarrow>
                          txrx_chunk_control_program P port (drop c tx) (drop c rxbuf) (N - c) w2)))"
proof -
  have pw: "port_write port (take c tx) (d, lg) =
      ((case res of None \<Rightarrow> Inl SERIAL_COM_EXCEPTION | Some n \<Rightarrow> Inr n),
       (d1, lg @ [WRITE_PORT (take c tx) res]))"
    by (simp add: port_write_def assms(3))
  show ?thesis
    apply (subst txrx_chunk_control_program.simps)
    apply (simp only: assms(2)[symmetric] Let_def pw)
    using assms(1) apply (simp split: option.splits)
    done
qed


lemma stream_write: "write_port (stream_port f) s bs = (Some (length bs), s)"
  by (simp add: stream_port_def)

lemma verify_echo_take_ok:
  assumes "take m s = take m tx" and "n \<le> m" and "n \<le> length s"
  shows "verify_echo tx (take n s) n = Inr ()"
proof -
  have "\<forall>j. 0 \<le> j \<and> j < n \<longrightarrow> take n s ! j = tx ! j"
  proof (intro allI impI)
    fix j assume j: "0 \<le> j \<and> j < n"
    then have "take n s ! j = take m s ! j" using assms(2) by simp
    also have "\<dots> = take m tx ! j" using assms(1) by simp
    also have "\<dots> = tx ! j" using j assms(2) by simp
    finally show "take n s ! j = tx ! j" .
  qed
  then show ?thesis by (simp add: verify_echo_def verify_echo_from_ok)
qed

lemma ccp_tolerant:
  assumes Bt: "1 \<le> serial_txbuf_size P" and Br: "1 \<le> serial_rxbuf_size P"
  shows "N \<le> length tx \<Longrightarrow> N - 1 \<le> length s \<Longrightarrow> take (N - 1) s = take (N - 1) tx \<Longrightarrow>
    \<exists>d evs. txrx_chunk_control_program P (stream_port f) tx rxbuf N (s, lg) =
       Some (Inr (), (d, lg @ evs))"
proof (induction N arbitrary: tx rxbuf s lg rule: less_induct)
  case (less N)
  show ?case
  proof (cases "N = 0")
    case True
    then show ?thesis using ccp_0[of P "stream_port f" tx rxbuf "(s, lg)"] by auto
  next
    case False
    then have npos: "0 < N" by simp
    define c where "c = (if N > serial_txbuf_size P then serial_txbuf_size P else N)"
    have cpos: "0 < c" and cle: "c \<le> N" using False Bt by (auto simp: c_def)
    have wp: "write_port (stream_port f) s (take c tx) = (Some c, s)"
      using less.prems(1) cle by (simp add: stream_write)
    define lg1 where "lg1 = lg @ [WRITE_PORT (take c tx) (Some c)]"
    note step = ccp_step[OF npos c_def wp, of rxbuf lg, folded lg1_def]
    show ?thesis
    proof (cases "N - c = 0")
      case True
      show ?thesis
      proof (cases "c = 1")
        case True
        from try_read_last_echo[of "stream_port f" tx rxbuf s lg1] obtain d evs where
          "try_ignore (read_last_echo (stream_port f) tx rxbuf) (s, lg1) = Some (Inr (), (d, lg1 @ evs))"
          by blast
        then have "txrx_chunk_control_program P (stream_port f) tx rxbuf N (s, lg) =
            Some (Inr (), (d, lg @ (WRITE_PORT (take c tx) (Some c) # evs)))"
          using step True \<open>N - c = 0\<close> by (simp add: lg1_def)
        then show ?thesis by blast
      next
        case False
        have cN: "c = N" using True cle by simp
        have l1: "c - 1 \<le> length s" using less.prems(2) cN by simp
        from rx_chunk_stream_ok[OF Br l1, of f lg1] obtain evs1 where
          rx: "rx_chunk P (stream_port f) (c - 1) (s, lg1) =
                 Some (Inr (take (c - 1) s), (drop (c - 1) s, lg1 @ evs1))" by blast
        have ve: "verify_echo tx (take (c - 1) s) (c - 1) = Inr ()"
          using verify_echo_take_ok[of "N - 1" s tx "c - 1"] less.prems cN by simp
        from try_read_last_echo[of "stream_port f" tx "drop (c - 1) rxbuf" "drop (c - 1) s" "lg1 @ evs1"]
        obtain d evs where
          "try_ignore (read_last_echo (stream_port f) tx (drop (c - 1) rxbuf)) (drop (c - 1) s, lg1 @ evs1)
             = Some (Inr (), (d, (lg1 @ evs1) @ evs))"
          by blast
        then have "txrx_chunk_control_program P (stream_port f) tx rxbuf N (s, lg) =
            Some (Inr (), (d, lg @ (WRITE_PORT (take c tx) (Some c) # evs1 @ evs)))"
          using step True False rx ve by (simp add: lg1_def)
        then show ?thesis by blast
      qed
    next
      case False
      then have cltN: "c < N" using cle by simp
      have l1: "c \<le> length s" using less.prems(2) cltN by simp
      from rx_chunk_stream_ok[OF Br l1, of f lg1] obtain evs1 where
        rx: "rx_chunk P (stream_port f) c (s, lg1) = Some (Inr (take c s), (drop c s, lg1 @ evs1))"
        by blast
      have ve: "verify_echo tx (take c s) c = Inr ()"
        using verify_echo_take_ok[of "N - 1" s tx c] less.prems cltN by simp
      have lt: "N - c < N" using cpos cle by simp
      have p1: "N - c \<le> length (drop c tx)" using less.prems(1) by simp
      have p2: "N - c - 1 \<le> length (drop c s)" using less.prems(2) by simp
      have "drop c (take (N - 1) s) = drop c (take (N - 1) tx)" using less.prems(3) by simp
      then have p3: "take (N - c - 1) (drop c s) = take (N - c - 1) (drop c tx)"
        by (simp add: drop_take)
      from less.IH[OF lt p1 p2 p3, of "drop c rxbuf" "lg1 @ evs1"] obtain d evs where
        "txrx_chunk_control_program P (stream_port f) (drop c tx) (drop c rxbuf) (N - c) (drop c s, lg1 @ evs1)
           = Some (Inr (), (d, (lg1 @ evs1) @ evs))" by blast
      then have "txrx_chunk_control_program P (stream_port f) tx rxbuf N (s, lg) =
            Some (Inr (), (d, lg @ (WRITE_PORT (take c tx) (Some c) # evs1 @ evs)))"
        using step False rx ve by (simp add: lg1_def)
      then show ?thesis by blast
    qed
  qed
qed


lemma ccp_missing:
  assumes Bt: "1 \<le> serial_txbuf_size P" and Br: "1 \<le> serial_rxbuf_size P"
  shows "N \<le> length tx \<Longrightarrow> length s < N - 1 \<Longrightarrow> s = take (length s) tx \<Longrightarrow>
    \<exists>d evs c x. txrx_chunk_control_program P (stream_port f) tx rxbuf N (s, lg) =
       Some (Inl (if f then SERIAL_COM_EXCEPTION else APP_ERROR_RX_FAIL c x), (d, lg @ evs))"
proof (induction N arbitrary: tx rxbuf s lg rule: less_induct)
  case (less N)
  have npos: "0 < N" using less.prems(2) by simp
  define c where "c = (if N > serial_txbuf_size P then serial_txbuf_size P else N)"
  have cpos: "0 < c" and cle: "c \<le> N" using npos Bt by (auto simp: c_def)
  have wp: "write_port (stream_port f) s (take c tx) = (Some c, s)"
    using less.prems(1) cle by (simp add: stream_write)
  define lg1 where "lg1 = lg @ [WRITE_PORT (take c tx) (Some c)]"
  note step = ccp_step[OF npos c_def wp, of rxbuf lg, folded lg1_def]
  show ?case
  proof (cases "N - c = 0")
    case True
    then have cN: "c = N" using cle by simp
    then have c1: "c \<noteq> 1" using less.prems(2) by simp
    have l1: "length s < c - 1" using less.prems(2) cN by simp
    from rx_chunk_stream_short[OF Br l1, of f lg1] obtain d evs c' x where
      "rx_chunk P (stream_port f) (c - 1) (s, lg1) =
         Some (Inl (if f then SERIAL_COM_EXCEPTION else APP_ERROR_RX_FAIL c' x), (d, lg1 @ evs))"
      by blast
    then have "txrx_chunk_control_program P (stream_port f) tx rxbuf N (s, lg) =
        Some (Inl (if f then SERIAL_COM_EXCEPTION else APP_ERROR_RX_FAIL c' x),
              (d, lg @ (WRITE_PORT (take c tx) (Some c) # evs)))"
      using step True c1 by (simp add: lg1_def)
    then show ?thesis by blast
  next
    case False
    then have cltN: "c < N" using cle by simp
    show ?thesis
    proof (cases "length s < c")
      case True
      from rx_chunk_stream_short[OF Br True, of f lg1] obtain d evs c' x where
        "rx_chunk P (stream_port f) c (s, lg1) =
           Some (Inl (if f then SERIAL_COM_EXCEPTION else APP_ERROR_RX_FAIL c' x), (d, lg1 @ evs))"
        by blast
      then have "txrx_chunk_control_program P (stream_port f) tx rxbuf N (s, lg) =
          Some (Inl (if f then SERIAL_COM_EXCEPTION else APP_ERROR_RX_FAIL c' x),
                (d, lg @ (WRITE_PORT (take c tx) (Some c) # evs)))"
        using step False by (simp add: lg1_def)
      then show ?thesis by blast
    next
      case ge: False
      then have l1: "c \<le> length s" by simp
      from rx_chunk_stream_ok[OF Br l1, of f lg1] obtain evs1 where
        rx: "rx_chunk P (stream_port f) c (s, lg1) = Some (Inr (take c s), (drop c s, lg1 @ evs1))"
        by blast
      have "take (length s) s = take (length s) tx" using less.prems(3) by simp
      then have ve: "verify_echo tx (take c s) c = Inr ()"
        using verify_echo_take_ok[of "length s" s tx c] l1 by simp
      have lt: "N - c < N" using cpos cle by simp
      have p1: "N - c \<le> length (drop c tx)" using less.prems(1) by simp
      have p2: "length (drop c s) < N - c - 1" using less.prems(2) l1 by simp
      have "drop c s = drop c (take (length s) tx)" using less.prems(3) by simp
      then have e: "drop c s = take (length s - c) (drop c tx)" by (simp only: drop_take)
      have p3: "drop c s = take (length (drop c s)) (drop c tx)"
        by (subst length_drop) (rule e)
      from less.IH[OF lt p1 p2 p3, of "drop c rxbuf" "lg1 @ evs1"] obtain d evs c' x where
        "txrx_chunk_control_program P (stream_port f) (drop c tx) (drop c rxbuf) (N - c) (drop c s, lg1 @ evs1)
           = Some (Inl (if f then SERIAL_COM_EXCEPTION else APP_ERROR_RX_FAIL c' x), (d, (lg1 @ evs1) @ evs))"
        by blast
      then have "txrx_chunk_control_program P (stream_port f) tx rxbuf N (s, lg) =
          Some (Inl (if f then SERIAL_COM_EXCEPTION else APP_ERROR_RX_FAIL c' x),
                (d, lg @ (WRITE_PORT (take c tx) (Some c) # evs1 @ evs)))"
        using step False rx ve by (simp add: lg1_def)
      then show ?thesis by blast
    qed
  qed
qed

lemma ccp_mismatch:
  assumes Bt: "1 \<le> serial_txbuf_size P" and Br: "1 \<le> serial_rxbuf_size P"
  shows "N \<le> length tx \<Longrightarrow> N - 1 \<le> length s \<Longrightarrow> k < N - 1 \<Longrightarrow>
    \<forall>j<k. s ! j = tx ! j \<Longrightarrow> s ! k \<noteq> tx ! k \<Longrightarrow>
    \<exists>d evs. txrx_chunk_control_program P (stream_port f) tx rxbuf N (s, lg) =
       Some (Inl (APP_ERROR_ECHO (tx ! k) (s ! k)), (d, lg @ evs))"
proof (induction N arbitrary: tx rxbuf s lg k rule: less_induct)
  case (less N)
  have npos: "0 < N" using less.prems(3) by simp
  define c where "c = (if N > serial_txbuf_size P then serial_txbuf_size P else N)"
  have cpos: "0 < c" and cle: "c \<le> N" using npos Bt by (auto simp: c_def)
  have wp: "write_port (stream_port f) s (take c tx) = (Some c, s)"
    using less.prems(1) cle by (simp add: stream_write)
  define lg1 where "lg1 = lg @ [WRITE_PORT (take c tx) (Some c)]"
  note step = ccp_step[OF npos c_def wp, of rxbuf lg, folded lg1_def]
  show ?case
  proof (cases "N - c = 0")
    case True
    then have cN: "c = N" using cle by simp
    then have c1: "c \<noteq> 1" using less.prems(3) by simp
    have l1: "c - 1 \<le> length s" using less.prems(2) cN by simp
    from rx_chunk_stream_ok[OF Br l1, of f lg1] obtain evs1 where
      rx: "rx_chunk P (stream_port f) (c - 1) (s, lg1) =
             Some (Inr (take (c - 1) s), (drop (c - 1) s, lg1 @ evs1))" by blast
    have kc: "k < c - 1" using less.prems(3) cN by simp
    have "verify_echo_from tx (take (c - 1) s) (c - 1) 0 =
        Inl (APP_ERROR_ECHO (tx ! k) (take (c - 1) s ! k))"
      using kc less.prems(4,5) by (intro verify_echo_from_first) auto
    then have ve: "verify_echo tx (take (c - 1) s) (c - 1) = Inl (APP_ERROR_ECHO (tx ! k) (s ! k))"
      using kc by (simp add: verify_echo_def)
    have "txrx_chunk_control_program P (stream_port f) tx rxbuf N (s, lg) =
        Some (Inl (APP_ERROR_ECHO (tx ! k) (s ! k)),
              (drop (c - 1) s, lg @ (WRITE_PORT (take c tx) (Some c) # evs1)))"
      using step True c1 rx ve by (simp add: lg1_def)
    then show ?thesis by blast
  next
    case False
    then have cltN: "c < N" using cle by simp
    have l1: "c \<le> length s" using less.prems(2) cltN by simp
    from rx_chunk_stream_ok[OF Br l1, of f lg1] obtain evs1 where
      rx: "rx_chunk P (stream_port f) c (s, lg1) = Some (Inr (take c s), (drop c s, lg1 @ evs1))"
      by blast
    show ?thesis
    proof (cases "k < c")
      case True
      have "verify_echo_from tx (take c s) c 0 = Inl (APP_ERROR_ECHO (tx ! k) (take c s ! k))"
        using True less.prems(4,5) by (intro verify_echo_from_first) auto
      then have ve: "verify_echo tx (take c s) c = Inl (APP_ERROR_ECHO (tx ! k) (s ! k))"
        using True by (simp add: verify_echo_def)
      have "txrx_chunk_control_program P (stream_port f) tx rxbuf N (s, lg) =
          Some (Inl (APP_ERROR_ECHO (tx ! k) (s ! k)),
                (drop c s, lg @ (WRITE_PORT (take c tx) (Some c) # evs1)))"
        using step False rx ve by (simp add: lg1_def)
      then show ?thesis by blast
    next
      case ge: False
      then have ck: "c \<le> k" by simp
      have "\<forall>j. 0 \<le> j \<and> j < c \<longrightarrow> take c s ! j = tx ! j" using less.prems(4) ck by simp
      then have ve: "verify_echo tx (take c s) c = Inr ()"
        by (simp add: verify_echo_def verify_echo_from_ok)
      have lt: "N - c < N" using cpos cle by simp
      have p1: "N - c \<le> length (drop c tx)" using less.prems(1) by simp
      have p2: "N - c - 1 \<le> length (drop c s)" using less.prems(2) by simp
      have p3: "k - c < N - c - 1" using less.prems(3) ck by simp
      have p4: "\<forall>j<k - c. drop c s ! j = drop c tx ! j"
      proof (intro allI impI)
        fix j assume "j < k - c"
        then have "c + j < k" by simp
        then have "s ! (c + j) = tx ! (c + j)" using less.prems(4) by blast
        moreover have "c + j \<le> length s" "c + j \<le> length tx"
          using \<open>c + j < k\<close> less.prems(1,2,3) by simp_all
        ultimately show "drop c s ! j = drop c tx ! j" using l1 less.prems(1) cle by simp
      qed
      have kk: "c + (k - c) = k" using ck by simp
      have p5: "drop c s ! (k - c) \<noteq> drop c tx ! (k - c)"
        using less.prems(1,5) l1 cle kk by simp
      from less.IH[OF lt p1 p2 p3 p4 p5, of "drop c rxbuf" "lg1 @ evs1"] obtain d evs where
        "txrx_chunk_control_program P (stream_port f) (drop c tx) (drop c rxbuf) (N - c) (drop c s, lg1 @ evs1)
           = Some (Inl (APP_ERROR_ECHO (drop c tx ! (k - c)) (drop c s ! (k - c))), (d, (lg1 @ evs1) @ evs))"
        by blast
      moreover have "drop c tx ! (k - c) = tx ! k" "drop c s ! (k - c) = s ! k"
        using less.prems(1) l1 cle kk by simp_all
      ultimately have "txrx_chunk_control_program P (stream_port f) tx rxbuf N (s, lg) =
          Some (Inl (APP_ERROR_ECHO (tx ! k) (s ! k)),
                (d, lg @ (WRITE_PORT (take c tx) (Some c) # evs1 @ evs)))"
        using step False rx ve by (simp add: lg1_def)
      then show ?thesis by blast
    qed
  qed
qed

text \<open>
  Claim C2, as the code has it. The image of \<open>N\<close> bytes at \<open>tx\<close> is sent to a device
  that answers with the bytes \<open>s\<close>, for any chunk sizes of at least 1 (so the last chunk
  is one byte or longer, as \<open>N\<close> and the transmit chunk size make it).
  When the device echoes the first \<open>N - 1\<close> bytes, the download returns normally, whatever
  follows them: nothing (the read of the last byte falls short or raises) or a wrong byte.
  When the echo stops before byte \<open>N - 1\<close>, the receive failure is raised (or the
  exception of the transport), not the echo error. When the bytes arrive and one before the
  last differs, the echo error is raised with the first such pair.
\<close>

theorem bootstrap_last_byte_tolerance:
  "1 \<le> serial_txbuf_size P \<Longrightarrow> 1 \<le> serial_rxbuf_size P \<Longrightarrow> 1 \<le> N \<Longrightarrow> N \<le> length tx \<Longrightarrow>
   (N - 1 \<le> length s \<and> take (N - 1) s = take (N - 1) tx \<longrightarrow>
      (\<exists>d evs. txrx_chunk_control_program P (stream_port f) tx rxbuf N (s, lg) =
         Some (Inr (), (d, lg @ evs)))) \<and>
   (length s < N - 1 \<and> s = take (length s) tx \<longrightarrow>
      (\<exists>d evs c x. txrx_chunk_control_program P (stream_port False) tx rxbuf N (s, lg) =
         Some (Inl (APP_ERROR_RX_FAIL c x), (d, lg @ evs))) \<and>
      (\<exists>d evs. txrx_chunk_control_program P (stream_port True) tx rxbuf N (s, lg) =
         Some (Inl SERIAL_COM_EXCEPTION, (d, lg @ evs)))) \<and>
   (\<forall>k<N - 1. N - 1 \<le> length s \<and> (\<forall>j<k. s ! j = tx ! j) \<and> s ! k \<noteq> tx ! k \<longrightarrow>
      (\<exists>d evs. txrx_chunk_control_program P (stream_port f) tx rxbuf N (s, lg) =
         Some (Inl (APP_ERROR_ECHO (tx ! k) (s ! k)), (d, lg @ evs))))"
proof -
  assume Bt: "1 \<le> serial_txbuf_size P" and Br: "1 \<le> serial_rxbuf_size P"
    and N: "1 \<le> N" and len: "N \<le> length tx"
  have a: "N - 1 \<le> length s \<and> take (N - 1) s = take (N - 1) tx \<longrightarrow>
      (\<exists>d evs. txrx_chunk_control_program P (stream_port f) tx rxbuf N (s, lg) =
         Some (Inr (), (d, lg @ evs)))"
    using ccp_tolerant [OF Bt Br len] by blast
  have b: "length s < N - 1 \<and> s = take (length s) tx \<longrightarrow>
      (\<exists>d evs c x. txrx_chunk_control_program P (stream_port False) tx rxbuf N (s, lg) =
         Some (Inl (APP_ERROR_RX_FAIL c x), (d, lg @ evs))) \<and>
      (\<exists>d evs. txrx_chunk_control_program P (stream_port True) tx rxbuf N (s, lg) =
         Some (Inl SERIAL_COM_EXCEPTION, (d, lg @ evs)))"
  proof
    assume h: "length s < N - 1 \<and> s = take (length s) tx"
    from ccp_missing [OF Bt Br len, of s False rxbuf lg] h
    have "\<exists>d evs c x. txrx_chunk_control_program P (stream_port False) tx rxbuf N (s, lg) =
         Some (Inl (APP_ERROR_RX_FAIL c x), (d, lg @ evs))" by simp
    moreover from ccp_missing [OF Bt Br len, of s True rxbuf lg] h
    have "\<exists>d evs. txrx_chunk_control_program P (stream_port True) tx rxbuf N (s, lg) =
         Some (Inl SERIAL_COM_EXCEPTION, (d, lg @ evs))" by simp
    ultimately show "(\<exists>d evs c x. txrx_chunk_control_program P (stream_port False) tx rxbuf N (s, lg) =
         Some (Inl (APP_ERROR_RX_FAIL c x), (d, lg @ evs))) \<and>
      (\<exists>d evs. txrx_chunk_control_program P (stream_port True) tx rxbuf N (s, lg) =
         Some (Inl SERIAL_COM_EXCEPTION, (d, lg @ evs)))" by blast
  qed
  have c: "\<forall>k<N - 1. N - 1 \<le> length s \<and> (\<forall>j<k. s ! j = tx ! j) \<and> s ! k \<noteq> tx ! k \<longrightarrow>
      (\<exists>d evs. txrx_chunk_control_program P (stream_port f) tx rxbuf N (s, lg) =
         Some (Inl (APP_ERROR_ECHO (tx ! k) (s ! k)), (d, lg @ evs)))"
    using ccp_mismatch [OF Bt Br len] by blast
  show ?thesis using a b c by blast
qed

text \<open>
  Three bytes in one chunk and in chunks of two: the last echo missing or wrong is
  accepted, the echo of the second byte missing is a receive failure, and a wrong echo of
  the second byte is the echo error.
\<close>

theorem bootstrap_last_byte_tolerance_witness:
  "1 \<le> serial_txbuf_size (params_with 256 2) \<and> 1 \<le> serial_rxbuf_size (params_with 256 2) \<and>
   (1::nat) \<le> 3 \<and> (3::nat) \<le> length [1, 2, 3 :: byte] \<and>
   (\<exists>d evs. txrx_chunk_control_program (params_with 256 2) (stream_port False) [1, 2, 3] [0, 0, 0] 3
       ([1, 2], []) = Some (Inr (), (d, [] @ evs))) \<and>
   (\<exists>d evs. txrx_chunk_control_program (params_with 256 2) (stream_port True) [1, 2, 3] [0, 0, 0] 3
       ([1, 2], []) = Some (Inr (), (d, [] @ evs))) \<and>
   (\<exists>d evs. txrx_chunk_control_program (params_with 256 2) (stream_port False) [1, 2, 3] [0, 0, 0] 3
       ([1, 2, 9], []) = Some (Inr (), (d, [] @ evs))) \<and>
   (\<exists>d evs. txrx_chunk_control_program (params_with 256 256) (stream_port False) [1, 2, 3] [0, 0, 0] 3
       ([1, 2], []) = Some (Inr (), (d, [] @ evs))) \<and>
   (\<exists>d evs c x. txrx_chunk_control_program (params_with 256 2) (stream_port False) [1, 2, 3] [0, 0, 0] 3
       ([1], []) = Some (Inl (APP_ERROR_RX_FAIL c x), (d, [] @ evs))) \<and>
   (\<exists>d evs. txrx_chunk_control_program (params_with 256 2) (stream_port False) [1, 2, 3] [0, 0, 0] 3
       ([1, 9, 3], []) = Some (Inl (APP_ERROR_ECHO 2 9), (d, [] @ evs)))"
proof -
  have h: "1 \<le> serial_txbuf_size (params_with 256 2)" "1 \<le> serial_rxbuf_size (params_with 256 2)"
    "(1::nat) \<le> 3" "(3::nat) \<le> length [1, 2, 3 :: byte]"
    by (simp_all add: params_with_def)
  have h': "1 \<le> serial_txbuf_size (params_with 256 256)" "1 \<le> serial_rxbuf_size (params_with 256 256)"
    by (simp_all add: params_with_def)
  note T = bootstrap_last_byte_tolerance [OF h, where rxbuf = "[0, 0, 0]" and lg = "[]"]
  note T' = bootstrap_last_byte_tolerance [OF h' h(3,4), where rxbuf = "[0, 0, 0]" and lg = "[]"]
  have a1: "\<exists>d evs. txrx_chunk_control_program (params_with 256 2) (stream_port False) [1, 2, 3] [0, 0, 0] 3
       ([1, 2], []) = Some (Inr (), (d, [] @ evs))"
    using T [of "[1, 2]" False] by simp
  have a2: "\<exists>d evs. txrx_chunk_control_program (params_with 256 2) (stream_port True) [1, 2, 3] [0, 0, 0] 3
       ([1, 2], []) = Some (Inr (), (d, [] @ evs))"
    using T [of "[1, 2]" True] by simp
  have a3: "\<exists>d evs. txrx_chunk_control_program (params_with 256 2) (stream_port False) [1, 2, 3] [0, 0, 0] 3
       ([1, 2, 9], []) = Some (Inr (), (d, [] @ evs))"
    using T [of "[1, 2, 9]" False] by simp
  have a4: "\<exists>d evs. txrx_chunk_control_program (params_with 256 256) (stream_port False) [1, 2, 3] [0, 0, 0] 3
       ([1, 2], []) = Some (Inr (), (d, [] @ evs))"
    using T' [of "[1, 2]" False] by simp
  have b: "\<exists>d evs c x. txrx_chunk_control_program (params_with 256 2) (stream_port False) [1, 2, 3] [0, 0, 0] 3
       ([1], []) = Some (Inl (APP_ERROR_RX_FAIL c x), (d, [] @ evs))"
    using T [of "[1]" False] by simp
  have "(1::nat) < 3 - 1" "3 - 1 \<le> length [1, 9, 3 :: byte] \<and> (\<forall>j<1. [1, 9, 3 :: byte] ! j = [1, 2, 3 :: byte] ! j) \<and>
       [1, 9, 3 :: byte] ! 1 \<noteq> [1, 2, 3 :: byte] ! 1"
    by simp_all
  with T [of "[1, 9, 3]" False]
  have "\<exists>d evs. txrx_chunk_control_program (params_with 256 2) (stream_port False) [1, 2, 3] [0, 0, 0] 3
       ([1, 9, 3], []) = Some (Inl (APP_ERROR_ECHO ([1, 2, 3] ! 1) ([1, 9, 3] ! 1)), (d, [] @ evs))"
    by blast
  then have c: "\<exists>d evs. txrx_chunk_control_program (params_with 256 2) (stream_port False) [1, 2, 3] [0, 0, 0] 3
       ([1, 9, 3], []) = Some (Inl (APP_ERROR_ECHO 2 9), (d, [] @ evs))"
    by simp
  show ?thesis using h a1 a2 a3 a4 b c by blast
qed

text \<open>
  Claim C2 as it was stated fails for a missing echo: with three bytes sent in one chunk
  and only the first echoed, the error is the receive failure (two bytes asked for, one
  delivered), not the echo error.
\<close>

lemmas ccp_eval = txrx_chunk_control_program.simps rx_chunk.simps params_with_def stream_port_def
  port_write_def port_read_def verify_echo_def verify_echo_from.simps try_ignore_def
  read_last_echo_def

theorem bootstrap_missing_echo_counterexample:
  "txrx_chunk_control_program (params_with 256 256) (stream_port False) [1, 2, 3] [0, 0, 0] 3 ([1], []) =
     Some (Inl (APP_ERROR_RX_FAIL 2 1), ([], [WRITE_PORT [1, 2, 3] (Some 3), READ_PORT 2 (Some [1])]))"
  by (simp add: ccp_eval)

section \<open>Bootstrap download: the image\<close>

lemma load_record_spec:
  assumes "2 * unat cnt + 6 \<le> length l \<or> unat cnt = 0"
  shows "i \<le> unat cnt \<Longrightarrow> bi \<le> 256 \<Longrightarrow>
    (bi + (unat cnt - i) > 256 \<longrightarrow> load_record l cnt i (txbuf, bi) = Inl APP_ERROR_TALKER_TOO_BIG) \<and>
    (bi + (unat cnt - i) \<le> 256 \<longrightarrow>
       (\<exists>txbuf'. load_record l cnt i (txbuf, bi) = Inr (txbuf', bi + (unat cnt - i)) \<and>
          length txbuf' = length txbuf \<and>
          (256 \<le> length txbuf \<longrightarrow>
             take (bi + (unat cnt - i)) txbuf' = take bi txbuf @ map (record_byte l) [i..<unat cnt])))"
proof (induction "unat cnt - i" arbitrary: i bi txbuf)
  case 0
  then have "i = unat cnt" by simp
  then show ?case using "0.prems" by (simp add: load_record.simps[of l cnt "unat cnt"])
next
  case (Suc m)
  then have lt: "i < unat cnt" by simp
  show ?case
  proof (cases "bi = 256")
    case True
    have "load_record l cnt i (txbuf, bi) = Inl APP_ERROR_TALKER_TOO_BIG"
      using True lt by (simp add: load_record.simps[of l cnt i])
    moreover have "bi + (unat cnt - i) > 256" using True lt by simp
    ultimately show ?thesis by simp
  next
    case False
    then have bi: "bi < 256" using Suc.prems by simp
    have pos: "\<not> 2 * i + 8 > length l" using assms lt by auto
    define v where "v = record_byte l i"
    have step: "load_record l cnt i (txbuf, bi) = load_record l cnt (i + 1) (txbuf[bi := v], bi + 1)"
      using lt False pos by (subst load_record.simps) (simp add: substr_def v_def record_byte_def)
    have m: "m = unat cnt - (i + 1)" using Suc.hyps(2) by simp
    have IH: "(bi + 1 + (unat cnt - (i + 1)) > 256 \<longrightarrow>
         load_record l cnt (i + 1) (txbuf[bi := v], bi + 1) = Inl APP_ERROR_TALKER_TOO_BIG) \<and>
       (bi + 1 + (unat cnt - (i + 1)) \<le> 256 \<longrightarrow>
         (\<exists>txbuf'. load_record l cnt (i + 1) (txbuf[bi := v], bi + 1) =
              Inr (txbuf', bi + 1 + (unat cnt - (i + 1))) \<and>
            length txbuf' = length (txbuf[bi := v]) \<and>
            (256 \<le> length (txbuf[bi := v]) \<longrightarrow>
               take (bi + 1 + (unat cnt - (i + 1))) txbuf' =
                 take (bi + 1) (txbuf[bi := v]) @ map (record_byte l) [i + 1..<unat cnt])))"
      using Suc.hyps(1)[OF m, of "bi + 1" "txbuf[bi := v]"] lt bi by simp
    have eq: "bi + 1 + (unat cnt - (i + 1)) = bi + (unat cnt - i)" using lt by simp
    have tk: "256 \<le> length txbuf \<Longrightarrow> take (Suc bi) (txbuf[bi := v]) = take bi txbuf @ [v]"
      using bi by (simp add: take_Suc_conv_app_nth)
    have up: "[i..<unat cnt] = i # [i + 1..<unat cnt]" using lt by (simp add: upt_conv_Cons)
    show ?thesis
      unfolding step using IH unfolding eq
      by (auto simp: tk[unfolded v_def] up v_def)
  qed
qed

lemma talker_line_spec:
  assumes "intact l" and "bi \<le> 256"
  shows
    "(bi + talker_count l > 256 \<longrightarrow> talker_line l (txbuf, bi) = Inl APP_ERROR_TALKER_TOO_BIG) \<and>
     (bi + talker_count l \<le> 256 \<longrightarrow>
       (\<exists>txbuf'. talker_line l (txbuf, bi) = Inr (txbuf', bi + talker_count l) \<and>
          length txbuf' = length txbuf \<and>
          (256 \<le> length txbuf \<longrightarrow>
             take (bi + talker_count l) txbuf' = take bi txbuf @ talker_bytes l)))"
proof (cases "length l > 8 \<and> take 2 l = ''S1'' \<and> talker_bytecount l > 0 \<and>
         unat (talker_bytecount l) \<ge> (length l - 4) div 2 \<and> talker_bytecount l > 3")
  case False
  have c: "talker_count l = 0" unfolding talker_count_def using False by (rule if_not_P)
  have "talker_line l (txbuf, bi) = Inr (txbuf, bi)"
    using False by (auto simp: talker_line_def substr_def talker_bytecount_def Let_def)
  then show ?thesis using c assms by (simp add: talker_bytes_def)
next
  case True
  have c: "talker_count l = unat (talker_bytecount l - 3)"
    unfolding talker_count_def using True by (rule if_P)
  have tl: "talker_line l (txbuf, bi) = load_record l (talker_bytecount l - 3) 0 (txbuf, bi)"
    using True by (simp add: talker_line_def substr_def talker_bytecount_def Let_def)
  have i: "2 * unat (talker_bytecount l - 3) + 6 \<le> length l \<or> unat (talker_bytecount l - 3) = 0"
    using assms(1) c by (auto simp: intact_def)
  have tb: "talker_bytes l = map (record_byte l) [0..<unat (talker_bytecount l - 3)]"
    by (simp add: talker_bytes_def c record_byte_def)
  show ?thesis
    using load_record_spec[OF i, of 0 bi txbuf] assms(2) unfolding tl c tb by simp
qed

lemma read_talker_file_spec:
  assumes "\<forall>l\<in>set ls. intact l"
  shows "bi \<le> 256 \<Longrightarrow>
    (bi + sum_list (map talker_count ls) > 256 \<longrightarrow>
       read_talker_file ls (txbuf, bi) = Inl APP_ERROR_TALKER_TOO_BIG) \<and>
    (bi + sum_list (map talker_count ls) \<le> 256 \<longrightarrow>
       (\<exists>txbuf'. read_talker_file ls (txbuf, bi) = Inr (txbuf', bi + sum_list (map talker_count ls)) \<and>
          length txbuf' = length txbuf \<and>
          (256 \<le> length txbuf \<longrightarrow>
             take (bi + sum_list (map talker_count ls)) txbuf' =
               take bi txbuf @ concat (map talker_bytes ls))))"
  using assms
proof (induction ls arbitrary: bi txbuf)
  case Nil
  then show ?case by simp
next
  case (Cons l ls)
  have il: "intact l" and ils: "\<forall>l\<in>set ls. intact l" using Cons.prems by auto
  note L = talker_line_spec[OF il Cons.prems(1), of txbuf]
  show ?case
  proof (cases "bi + talker_count l > 256")
    case True
    then have "talker_line l (txbuf, bi) = Inl APP_ERROR_TALKER_TOO_BIG" using L by blast
    then show ?thesis using True by simp
  next
    case False
    then obtain txbuf1 where
      t1: "talker_line l (txbuf, bi) = Inr (txbuf1, bi + talker_count l)"
      and l1: "length txbuf1 = length txbuf"
      and c1: "256 \<le> length txbuf \<longrightarrow> take (bi + talker_count l) txbuf1 = take bi txbuf @ talker_bytes l"
      using L by auto
    have b1: "bi + talker_count l \<le> 256" using False by simp
    note IH = Cons.IH[OF b1 ils, of txbuf1]
    have s: "read_talker_file (l # ls) (txbuf, bi) = read_talker_file ls (txbuf1, bi + talker_count l)"
      using t1 by simp
    show ?thesis unfolding s using IH l1 c1 by (auto simp: add.assoc)
  qed
qed

lemma pad_talker_spec:
  "bi \<le> 256 \<Longrightarrow> 256 \<le> length txbuf \<Longrightarrow>
   \<exists>txbuf'. pad_talker bi (txbuf, bi) = (txbuf', 256) \<and> length txbuf' = length txbuf \<and>
      take 256 txbuf' = take bi txbuf @ replicate (256 - bi) 0"
proof (induction "256 - bi" arbitrary: bi txbuf)
  case 0
  then have "bi = 256" by simp
  then show ?case by (subst pad_talker.simps) simp
next
  case (Suc m)
  then have bi: "bi < 256" by simp
  have step: "pad_talker bi (txbuf, bi) = pad_talker (bi + 1) (txbuf[bi := 0], bi + 1)"
    using bi by (subst pad_talker.simps) simp
  have m: "m = 256 - (bi + 1)" using Suc.hyps(2) by simp
  from Suc.hyps(1)[OF m, of "txbuf[bi := 0]"] bi Suc.prems obtain txbuf' where
    r: "pad_talker (bi + 1) (txbuf[bi := 0], bi + 1) = (txbuf', 256)"
    and l: "length txbuf' = length txbuf"
    and t: "take 256 txbuf' = take (bi + 1) (txbuf[bi := 0]) @ replicate (256 - (bi + 1)) 0"
    by auto
  have tk: "take (bi + 1) (txbuf[bi := 0]) = take bi txbuf @ [0]"
    using bi Suc.prems by (simp add: take_Suc_conv_app_nth)
  have "replicate (256 - bi) (0::byte) = 0 # replicate (256 - (bi + 1)) 0"
    using bi by (metis Suc_diff_Suc Suc_eq_plus1 replicate_Suc)
  then have "take 256 txbuf' = take bi txbuf @ replicate (256 - bi) 0" using t tk by simp
  then show ?case unfolding step using r l by blast
qed


lemma tx_chunk_one:
  assumes B: "1 \<le> serial_txbuf_size P" and wp: "write_port port d0 [b] = (res, d1)"
  shows "tx_chunk P port [b] 1 (d0, lg) =
     Some ((case res of None \<Rightarrow> Inl SERIAL_COM_EXCEPTION
            | Some x \<Rightarrow> if x \<noteq> 1 then Inl (APP_ERROR_TX_FAIL 1 x) else Inr ()),
           (d1, lg @ [WRITE_PORT [b] res]))"
proof -
  have c: "(if 1 > serial_txbuf_size P then serial_txbuf_size P else 1) = 1" using B by simp
  have pw: "port_write port (take 1 [b]) (d0, lg) =
      ((case res of None \<Rightarrow> Inl SERIAL_COM_EXCEPTION | Some n \<Rightarrow> Inr n), (d1, lg @ [WRITE_PORT [b] res]))"
    using wp by (simp add: port_write_def)
  have z: "tx_chunk P port xs 0 w = Some (Inr (), w)" for xs w
    by (subst tx_chunk.simps) simp
  show ?thesis
    apply (subst tx_chunk.simps)
    apply (simp only: c Let_def pw)
    apply (simp add: z split: option.splits)
    done
qed

lemma ccp_any:
  assumes Bt: "1 \<le> serial_txbuf_size P" and Br: "1 \<le> serial_rxbuf_size P"
  shows "N \<le> length tx \<Longrightarrow>
    \<exists>r d evs. txrx_chunk_control_program P port tx rxbuf N (d0, lg) = Some (r, (d, lg @ evs)) \<and>
      (\<exists>j\<le>N. written evs = take j tx) \<and>
      (r = Inr () \<longrightarrow> written evs = take N tx) \<and>
      (0 < N \<longrightarrow> (\<exists>bs res rest. evs = WRITE_PORT bs res # rest))"
proof (induction N arbitrary: tx rxbuf d0 lg rule: less_induct)
  case (less N)
  show ?case
  proof (cases "N = 0")
    case True
    then show ?thesis using ccp_0[of P port tx rxbuf "(d0, lg)"]
      by (intro exI[of _ "Inr ()"] exI[of _ d0] exI[of _ "[]"]) (simp add: written_def)
  next
    case False
    then have npos: "0 < N" by simp
    define c where "c = (if N > serial_txbuf_size P then serial_txbuf_size P else N)"
    have cpos: "0 < c" and cle: "c \<le> N" using False Bt by (auto simp: c_def)
    obtain res d1 where wp: "write_port port d0 (take c tx) = (res, d1)"
      by (cases "write_port port d0 (take c tx)")
    define e0 where "e0 = WRITE_PORT (take c tx) res"
    define lg1 where "lg1 = lg @ [e0]"
    note step = ccp_step[OF npos c_def wp, of rxbuf lg, folded e0_def, folded lg1_def]
    have we0: "written [e0] = take c tx" by (simp add: written_def e0_def)
    have wapp: "written (e0 # xs) = take c tx @ written xs" for xs
      by (simp add: written_def e0_def)
    have wapp2: "written (xs @ ys) = written xs @ written ys" for xs ys
      by (simp add: written_def)
    have succ: ?thesis if "txrx_chunk_control_program P port tx rxbuf N (d0, lg) = Some (r, (d, lg @ e0 # evs))"
      and "\<exists>j\<le>N. written (e0 # evs) = take j tx"
      and "r = Inr () \<longrightarrow> written (e0 # evs) = take N tx" for r d evs
      using that by (intro exI[of _ r] exI[of _ d] exI[of _ "e0 # evs"]) (simp add: e0_def)
    have fail: ?thesis if "txrx_chunk_control_program P port tx rxbuf N (d0, lg) = Some (Inl e, (d, lg @ e0 # evs))"
      and "written evs = []" for e d evs
    proof -
      have "written (e0 # evs) = take c tx" using that(2) by (simp add: wapp)
      then have "\<exists>j\<le>N. written (e0 # evs) = take j tx" using cle by blast
      then show ?thesis using that(1) by (intro succ[of "Inl e" d evs]) simp_all
    qed
    have full: "take c tx @ take (N - c) (drop c tx) = take N tx"
      using cle by (metis le_add_diff_inverse take_add)
    show ?thesis
    proof (cases res)
      case None
      then have "txrx_chunk_control_program P port tx rxbuf N (d0, lg) =
          Some (Inl SERIAL_COM_EXCEPTION, (d1, lg @ e0 # []))"
        using step by (simp add: lg1_def)
      then show ?thesis by (rule fail) (simp add: written_def)
    next
      case (Some x)
      show ?thesis
      proof (cases "x = c")
        case False
        then have "txrx_chunk_control_program P port tx rxbuf N (d0, lg) =
            Some (Inl (APP_ERROR_TX_FAIL c x), (d1, lg @ e0 # []))"
          using step Some by (simp add: lg1_def)
        then show ?thesis by (rule fail) (simp add: written_def)
      next
        case True
        show ?thesis
        proof (cases "N - c = 0")
          case last: True
          then have cN: "c = N" using cle by simp
          show ?thesis
          proof (cases "c = 1")
            case True
            from try_read_last_echo[of port tx rxbuf d1 lg1] obtain d evs where
              t: "try_ignore (read_last_echo port tx rxbuf) (d1, lg1) = Some (Inr (), (d, lg1 @ evs))"
              and w: "written evs = []" by blast
            have "txrx_chunk_control_program P port tx rxbuf N (d0, lg) =
                Some (Inr (), (d, lg @ (e0 # evs)))"
              using step Some \<open>x = c\<close> last True t by (simp add: lg1_def)
            moreover have "written (e0 # evs) = take N tx" using w cN by (simp add: wapp)
            ultimately show ?thesis by (intro succ[of "Inr ()" d evs]) auto
          next
            case False
            from rx_chunk_any[OF Br, of port "c - 1" d1 lg1] obtain r1 d2 evs1 where
              rx: "rx_chunk P port (c - 1) (d1, lg1) = Some (r1, (d2, lg1 @ evs1))"
              and w1: "written evs1 = []" by blast
            show ?thesis
            proof (cases r1)
              case (Inl e)
              then have "txrx_chunk_control_program P port tx rxbuf N (d0, lg) =
                  Some (Inl e, (d2, lg @ e0 # evs1))"
                using step Some \<open>x = c\<close> last False rx by (simp add: lg1_def)
              then show ?thesis using w1 by (rule fail)
            next
              case (Inr rs)
              show ?thesis
              proof (cases "verify_echo tx rs (c - 1)")
                case (Inl e)
                then have "txrx_chunk_control_program P port tx rxbuf N (d0, lg) =
                    Some (Inl e, (d2, lg @ e0 # evs1))"
                  using step Some \<open>x = c\<close> last False rx Inr by (simp add: lg1_def)
                then show ?thesis using w1 by (rule fail)
              next
                case ok: (Inr u)
                from try_read_last_echo[of port tx "drop (c - 1) rxbuf" d2 "lg1 @ evs1"] obtain d evs where
                  t: "try_ignore (read_last_echo port tx (drop (c - 1) rxbuf)) (d2, lg1 @ evs1) =
                        Some (Inr (), (d, (lg1 @ evs1) @ evs))"
                  and w: "written evs = []" by blast
                have "txrx_chunk_control_program P port tx rxbuf N (d0, lg) =
                    Some (Inr (), (d, lg @ (e0 # evs1 @ evs)))"
                  using step Some \<open>x = c\<close> last False rx Inr ok t by (simp add: lg1_def)
                moreover have "written (e0 # evs1 @ evs) = take N tx"
                  using w w1 cN by (simp add: wapp wapp2)
                ultimately show ?thesis by (intro succ[of "Inr ()" d "evs1 @ evs"]) auto
              qed
            qed
          qed
        next
          case mid: False
          from rx_chunk_any[OF Br, of port c d1 lg1] obtain r1 d2 evs1 where
            rx: "rx_chunk P port c (d1, lg1) = Some (r1, (d2, lg1 @ evs1))"
            and w1: "written evs1 = []" by blast
          show ?thesis
          proof (cases r1)
            case (Inl e)
            then have "txrx_chunk_control_program P port tx rxbuf N (d0, lg) =
                Some (Inl e, (d2, lg @ e0 # evs1))"
              using step Some \<open>x = c\<close> mid rx by (simp add: lg1_def)
            then show ?thesis using w1 by (rule fail)
          next
            case (Inr rs)
            show ?thesis
            proof (cases "verify_echo tx rs c")
              case (Inl e)
              then have "txrx_chunk_control_program P port tx rxbuf N (d0, lg) =
                  Some (Inl e, (d2, lg @ e0 # evs1))"
                using step Some \<open>x = c\<close> mid rx Inr by (simp add: lg1_def)
              then show ?thesis using w1 by (rule fail)
            next
              case ok: (Inr u)
              have lt: "N - c < N" using cpos cle by simp
              have p1: "N - c \<le> length (drop c tx)" using less.prems by simp
              from less.IH[OF lt p1, of "drop c rxbuf" d2 "lg1 @ evs1"] obtain r d evs where
                rr: "txrx_chunk_control_program P port (drop c tx) (drop c rxbuf) (N - c) (d2, lg1 @ evs1) =
                      Some (r, (d, (lg1 @ evs1) @ evs))"
                and pj: "\<exists>j\<le>N - c. written evs = take j (drop c tx)"
                and po: "r = Inr () \<longrightarrow> written evs = take (N - c) (drop c tx)"
                by blast
              have res: "txrx_chunk_control_program P port tx rxbuf N (d0, lg) =
                  Some (r, (d, lg @ (e0 # evs1 @ evs)))"
                using step Some \<open>x = c\<close> mid rx Inr ok rr by (simp add: lg1_def)
              have wr: "written (e0 # evs1 @ evs) = take c tx @ written evs"
                using w1 by (simp add: wapp wapp2)
              from pj obtain j where j: "j \<le> N - c" "written evs = take j (drop c tx)" by blast
              have "take c tx @ take j (drop c tx) = take (c + j) tx" by (simp add: take_add)
              then have a: "\<exists>j\<le>N. written (e0 # evs1 @ evs) = take j tx"
                using j cle wr by (intro exI[of _ "c + j"]) simp
              have b: "r = Inr () \<longrightarrow> written (e0 # evs1 @ evs) = take N tx"
                using po wr full by simp
              show ?thesis using res a b by (intro succ[of r d "evs1 @ evs"]) auto
            qed
          qed
        qed
      qed
    qed
  qed
qed

text \<open>
  Claim C5. When the records of the talker file hold more than 256 data bytes (and no
  record is cut short of the data it announces), \<open>send_control_program\<close> raises the
  talker-too-big error and leaves the world as it found it: no call of the transport has
  been made.
\<close>

theorem talker_too_big_before_transmission:
  "sum_list (map talker_count talker_file) > 256 \<Longrightarrow> \<forall>l\<in>set talker_file. intact l \<Longrightarrow>
   send_control_program P port talker_file txbuf0 rxbuf0 w = Some (Inl APP_ERROR_TALKER_TOO_BIG, w)"
proof -
  assume big: "sum_list (map talker_count talker_file) > 256"
    and ok: "\<forall>l\<in>set talker_file. intact l"
  have "read_talker_file talker_file (txbuf0, 0) = Inl APP_ERROR_TALKER_TOO_BIG"
    using read_talker_file_spec [OF ok, of 0 txbuf0] big by simp
  then show ?thesis by (simp add: send_control_program_def throw_io_def)
qed

theorem talker_too_big_before_transmission_witness:
  "talker_count long_record = 252 \<and> intact long_record \<and>
   send_control_program (params_with 256 256) (stream_port False)
     [''S0030000FC'', long_record, long_record]
     (replicate 256 0) (replicate 256 0) ([], []) = Some (Inl APP_ERROR_TALKER_TOO_BIG, ([], []))"
proof -
  have c: "talker_count long_record = 252"
    by (simp add: long_record_def talker_count_def talker_bytecount_def strtoul_16_def
          isspace_def hex_digit_def)
  have i: "intact long_record"
    unfolding intact_def c by (simp add: long_record_def)
  have c0: "talker_count ''S0030000FC'' = 0" by (simp add: talker_count_def)
  have i0: "intact ''S0030000FC''" unfolding intact_def c0 by simp
  have "send_control_program (params_with 256 256) (stream_port False)
     [''S0030000FC'', long_record, long_record]
     (replicate 256 0) (replicate 256 0) ([], []) = Some (Inl APP_ERROR_TALKER_TOO_BIG, ([], []))"
    by (rule talker_too_big_before_transmission) (simp_all add: c c0 i i0)
  with c i show ?thesis by blast
qed

lemma talker_bytes_length: "length (concat (map talker_bytes ls)) = sum_list (map talker_count ls)"
  by (induction ls) (simp_all add: talker_bytes_def)

lemma send_control_program_trace:
  assumes small: "sum_list (map talker_count talker_file) \<le> 256"
    and ok: "\<forall>l\<in>set talker_file. intact l"
    and buf: "256 \<le> length txbuf0"
    and Bt: "1 \<le> serial_txbuf_size P" and Br: "1 \<le> serial_rxbuf_size P"
  shows "\<exists>txbuf. length txbuf = length txbuf0 \<and>
      take 256 txbuf = concat (map talker_bytes talker_file) @
          replicate (256 - sum_list (map talker_count talker_file)) 0 \<and>
      send_control_program P port talker_file txbuf0 rxbuf0 =
        bind_io (tx_chunk P port [0xff] 1) (\<lambda>_. txrx_chunk_control_program P port txbuf rxbuf0 256)"
proof -
  define k where "k = sum_list (map talker_count talker_file)"
  from read_talker_file_spec [OF ok, of 0 txbuf0] small buf obtain txbuf1 where
    r: "read_talker_file talker_file (txbuf0, 0) = Inr (txbuf1, k)"
    and l1: "length txbuf1 = length txbuf0"
    and t1: "take k txbuf1 = concat (map talker_bytes talker_file)"
    unfolding k_def by auto
  from pad_talker_spec [of k txbuf1] small buf l1 obtain txbuf where
    p: "pad_talker k (txbuf1, k) = (txbuf, 256)" and l: "length txbuf = length txbuf1"
    and t: "take 256 txbuf = take k txbuf1 @ replicate (256 - k) 0"
    unfolding k_def by auto
  have "send_control_program P port talker_file txbuf0 rxbuf0 =
        bind_io (tx_chunk P port [0xff] 1) (\<lambda>_. txrx_chunk_control_program P port txbuf rxbuf0 256)"
    by (simp add: send_control_program_def r p)
  then show ?thesis using l l1 t t1 unfolding k_def by auto
qed

text \<open>
  Claim C6. For a talker file whose records hold \<open>k \<le> 256\<close> data bytes, with chunk
  sizes of at least 1, \<open>send_control_program\<close> returns, and what it does starts with
  one write of the byte \<open>0xFF\<close>; what comes next, if anything, is a write again (no
  read of an echo in between); the bytes written after the \<open>0xFF\<close> are the \<open>k\<close> data
  bytes in the order of the file followed by \<open>256 - k\<close> bytes \<open>0x00\<close>: all
  256 of them when no exception is raised, and the first ones of them otherwise.
\<close>

theorem bootstrap_image_written:
  "sum_list (map talker_count talker_file) \<le> 256 \<Longrightarrow> \<forall>l\<in>set talker_file. intact l \<Longrightarrow>
   256 \<le> length txbuf0 \<Longrightarrow> 1 \<le> serial_txbuf_size P \<Longrightarrow> 1 \<le> serial_rxbuf_size P \<Longrightarrow>
   \<exists>r d res rest.
     send_control_program P port talker_file txbuf0 rxbuf0 (d0, lg) =
       Some (r, (d, lg @ WRITE_PORT [0xff] res # rest)) \<and>
     (rest = [] \<or> (\<exists>bs res'. hd rest = WRITE_PORT bs res')) \<and>
     (\<exists>j\<le>256. written rest =
        take j (concat (map talker_bytes talker_file) @
                replicate (256 - length (concat (map talker_bytes talker_file))) 0)) \<and>
     (r = Inr () \<longrightarrow> written rest =
        concat (map talker_bytes talker_file) @
        replicate (256 - length (concat (map talker_bytes talker_file))) 0)"
proof -
  assume small: "sum_list (map talker_count talker_file) \<le> 256"
    and ok: "\<forall>l\<in>set talker_file. intact l"
    and buf: "256 \<le> length txbuf0"
    and Bt: "1 \<le> serial_txbuf_size P" and Br: "1 \<le> serial_rxbuf_size P"
  define image where "image = concat (map talker_bytes talker_file) @
      replicate (256 - length (concat (map talker_bytes talker_file))) 0"
  from send_control_program_trace [OF small ok buf Bt Br, of port rxbuf0] obtain txbuf where
    l: "length txbuf = length txbuf0" and t: "take 256 txbuf = image"
    and s: "send_control_program P port talker_file txbuf0 rxbuf0 =
        bind_io (tx_chunk P port [0xff] 1) (\<lambda>_. txrx_chunk_control_program P port txbuf rxbuf0 256)"
    unfolding image_def talker_bytes_length by blast
  obtain res d1 where wp: "write_port port d0 [0xff] = (res, d1)"
    by (cases "write_port port d0 [0xff]")
  note sync = tx_chunk_one [OF Bt wp, of lg]
  define e0 where "e0 = WRITE_PORT [0xff] res"
  show ?thesis
  proof (cases "res = Some 1")
    case False
    then obtain e where
      "tx_chunk P port [0xff] 1 (d0, lg) = Some (Inl e, (d1, lg @ [WRITE_PORT [0xff] res]))"
      using sync by (cases res) auto
    then have "send_control_program P port talker_file txbuf0 rxbuf0 (d0, lg) =
        Some (Inl e, (d1, lg @ WRITE_PORT [0xff] res # []))"
      by (simp add: s bind_io_def)
    moreover have "written [] = take 0 image" by (simp add: written_def)
    ultimately show ?thesis unfolding image_def [symmetric] by blast
  next
    case True
    then have "tx_chunk P port [0xff] 1 (d0, lg) = Some (Inr (), (d1, lg @ [WRITE_PORT [0xff] res]))"
      using sync by simp
    then have s1: "send_control_program P port talker_file txbuf0 rxbuf0 (d0, lg) =
        txrx_chunk_control_program P port txbuf rxbuf0 256 (d1, lg @ [WRITE_PORT [0xff] res])"
      by (simp add: s bind_io_def)
    have len: "256 \<le> length txbuf" using l buf by simp
    from ccp_any [OF Bt Br len, of port rxbuf0 d1 "lg @ [WRITE_PORT [0xff] res]"]
    obtain r d evs where
      call: "txrx_chunk_control_program P port txbuf rxbuf0 256 (d1, lg @ [WRITE_PORT [0xff] res]) =
            Some (r, (d, (lg @ [WRITE_PORT [0xff] res]) @ evs)) \<and>
      (\<exists>j\<le>256. written evs = take j txbuf) \<and>
      (r = Inr () \<longrightarrow> written evs = take 256 txbuf) \<and>
      ((0::nat) < 256 \<longrightarrow> (\<exists>bs res rest. evs = WRITE_PORT bs res # rest))"
      by (elim exE) (rule that)
    from call have
      c: "txrx_chunk_control_program P port txbuf rxbuf0 256 (d1, lg @ [WRITE_PORT [0xff] res]) =
            Some (r, (d, (lg @ [WRITE_PORT [0xff] res]) @ evs))"
      and pj: "\<exists>j\<le>256. written evs = take j txbuf"
      and po: "r = Inr () \<longrightarrow> written evs = take 256 txbuf"
      and hd': "(0::nat) < 256 \<longrightarrow> (\<exists>bs res rest. evs = WRITE_PORT bs res # rest)"
      by simp_all
    from hd' have hd: "\<exists>bs res rest. evs = WRITE_PORT bs res # rest" by simp
    from pj obtain j where j: "j \<le> 256" "written evs = take j txbuf" by blast
    have "take j txbuf = take j (take 256 txbuf)" using j(1) by (simp add: min_def)
    then have a: "\<exists>j\<le>256. written evs = take j image" using j t by auto
    have b: "r = Inr () \<longrightarrow> written evs = image" using po t by simp
    have h: "evs = [] \<or> (\<exists>bs res'. hd evs = WRITE_PORT bs res')" using hd by auto
    have "send_control_program P port talker_file txbuf0 rxbuf0 (d0, lg) =
        Some (r, (d, lg @ WRITE_PORT [0xff] res # evs))"
      using s1 c by simp
    then show ?thesis unfolding image_def [symmetric] using a b h by blast
  qed
qed

text \<open>
  With a device that echoes the first 255 bytes of the image the download returns
  normally, for any chunk sizes of at least 1.
\<close>

lemma send_control_program_completes:
  assumes small: "sum_list (map talker_count talker_file) \<le> 256"
    and ok: "\<forall>l\<in>set talker_file. intact l"
    and buf: "256 \<le> length txbuf0"
    and Bt: "1 \<le> serial_txbuf_size P" and Br: "1 \<le> serial_rxbuf_size P"
    and echo: "255 \<le> length s"
      "take 255 s = take 255 (concat (map talker_bytes talker_file) @
          replicate (256 - sum_list (map talker_count talker_file)) 0)"
  shows "\<exists>d evs. send_control_program P (stream_port f) talker_file txbuf0 rxbuf0 (s, lg) =
      Some (Inr (), (d, lg @ evs))"
proof -
  from send_control_program_trace [OF small ok buf Bt Br, of "stream_port f" rxbuf0] obtain txbuf where
    l: "length txbuf = length txbuf0"
    and t: "take 256 txbuf = concat (map talker_bytes talker_file) @
          replicate (256 - sum_list (map talker_count talker_file)) 0"
    and sp: "send_control_program P (stream_port f) talker_file txbuf0 rxbuf0 =
        bind_io (tx_chunk P (stream_port f) [0xff] 1)
          (\<lambda>_. txrx_chunk_control_program P (stream_port f) txbuf rxbuf0 256)"
    by blast
  have wp: "write_port (stream_port f) s [0xff] = (Some 1, s)" by (simp add: stream_write)
  have s1: "send_control_program P (stream_port f) talker_file txbuf0 rxbuf0 (s, lg) =
        txrx_chunk_control_program P (stream_port f) txbuf rxbuf0 256 (s, lg @ [WRITE_PORT [0xff] (Some 1)])"
    using tx_chunk_one [OF Bt wp, of lg] by (simp add: sp bind_io_def)
  have len: "256 \<le> length txbuf" using l buf by simp
  have "take 255 txbuf = take 255 (take 256 txbuf)" by simp
  then have e: "take (256 - 1) s = take (256 - 1) txbuf" using echo(2) t by simp
  have l2: "256 - 1 \<le> length s" using echo(1) by simp
  from ccp_tolerant [OF Bt Br len l2 e, of f rxbuf0 "lg @ [WRITE_PORT [0xff] (Some 1)]"]
  obtain d evs where
    "txrx_chunk_control_program P (stream_port f) txbuf rxbuf0 256 (s, lg @ [WRITE_PORT [0xff] (Some 1)]) =
       Some (Inr (), (d, (lg @ [WRITE_PORT [0xff] (Some 1)]) @ evs))" by blast
  then show ?thesis using s1 by auto
qed

theorem bootstrap_image_written_witness:
  "talker_count ''S1060000AABBCC7E'' = 3 \<and> intact ''S1060000AABBCC7E'' \<and>
   (256::nat) \<le> length (replicate 256 (0::byte)) \<and>
   1 \<le> serial_txbuf_size (params_with 256 256) \<and> 1 \<le> serial_rxbuf_size (params_with 256 256) \<and>
   (\<exists>d res rest. send_control_program (params_with 256 256) (stream_port False)
       [''S0030000FC'', ''S1060000AABBCC7E'', ''S9030000FC'']
       (replicate 256 0) (replicate 256 0) ([0xAA, 0xBB, 0xCC] @ replicate 252 0, []) =
         Some (Inr (), (d, [] @ WRITE_PORT [0xff] res # rest)) \<and>
       written rest = [0xAA, 0xBB, 0xCC] @ replicate 253 0)"
proof -
  let ?file = "[''S0030000FC'', ''S1060000AABBCC7E'', ''S9030000FC'']"
  let ?P = "params_with 256 256"
  let ?s = "[0xAA, 0xBB, 0xCC] @ replicate 252 (0::byte)"
  have c: "talker_count ''S1060000AABBCC7E'' = 3"
    by (simp add: talker_count_def talker_bytecount_def strtoul_16_def isspace_def hex_digit_def)
  have i: "intact ''S1060000AABBCC7E''" unfolding intact_def c by simp
  have c0: "talker_count ''S0030000FC'' = 0" "talker_count ''S9030000FC'' = 0"
    by (simp_all add: talker_count_def)
  have i0: "intact ''S0030000FC''" "intact ''S9030000FC''" unfolding intact_def c0 by simp_all
  have tb: "concat (map talker_bytes ?file) = [0xAA, 0xBB, 0xCC]"
    by code_simp
  have h: "sum_list (map talker_count ?file) \<le> 256" "\<forall>l\<in>set ?file. intact l"
    "(256::nat) \<le> length (replicate 256 (0::byte))"
    "1 \<le> serial_txbuf_size ?P" "1 \<le> serial_rxbuf_size ?P"
    by (simp_all add: c c0 i i0 params_with_def)
  from bootstrap_image_written [OF h, of "stream_port False" "replicate 256 0" ?s "[]"]
  obtain r d res rest where
    r: "send_control_program ?P (stream_port False) ?file (replicate 256 0) (replicate 256 0) (?s, []) =
          Some (r, (d, [] @ WRITE_PORT [0xff] res # rest))"
    and w: "r = Inr () \<longrightarrow> written rest = concat (map talker_bytes ?file) @
        replicate (256 - length (concat (map talker_bytes ?file))) 0"
    by blast
  have e1: "255 \<le> length ?s" by simp
  have e2: "take 255 ?s = take 255 (concat (map talker_bytes ?file) @
          replicate (256 - sum_list (map talker_count ?file)) 0)"
    unfolding tb by (simp add: c c0)
  from send_control_program_completes [OF h e1 e2, of False "replicate 256 0" "[]"]
  obtain d' evs where
    "send_control_program ?P (stream_port False) ?file (replicate 256 0) (replicate 256 0) (?s, []) =
       Some (Inr (), (d', [] @ evs))" by blast
  with r have r': "r = Inr ()" by simp
  have "written rest = [0xAA, 0xBB, 0xCC] @ replicate 253 0"
    using w r' unfolding tb by simp
  with r r' have "\<exists>d res rest. send_control_program ?P (stream_port False) ?file
       (replicate 256 0) (replicate 256 0) (?s, []) =
         Some (Inr (), (d, [] @ WRITE_PORT [0xff] res # rest)) \<and>
       written rest = [0xAA, 0xBB, 0xCC] @ replicate 253 0"
    by blast
  with c i h(3,4,5) show ?thesis by blast
qed

section \<open>What a computation transfers\<close>

lemma written_Nil [simp]: "written [] = []"
  by (simp add: written_def)

lemma written_append [simp]: "written (xs @ ys) = written xs @ written ys"
  by (simp add: written_def)

lemma written_Cons_write [simp]: "written (WRITE_PORT bs r # evs) = bs @ written evs"
  by (simp add: written_def)

lemma written_Cons_read [simp]: "written (READ_PORT n r # evs) = written evs"
  by (simp add: written_def)

lemma written_Cons_file [simp]: "written (WRITE_FILE l # evs) = written evs"
  by (simp add: written_def)

lemma requested_Nil [simp]: "requested [] = 0"
  by (simp add: requested_def)

lemma requested_append [simp]: "requested (xs @ ys) = requested xs + requested ys"
  by (simp add: requested_def)

lemma requested_Cons_write [simp]: "requested (WRITE_PORT bs r # evs) = requested evs"
  by (simp add: requested_def)

lemma requested_Cons_read [simp]: "requested (READ_PORT n r # evs) = n + requested evs"
  by (simp add: requested_def)

lemma requested_Cons_file [simp]: "requested (WRITE_FILE l # evs) = requested evs"
  by (simp add: requested_def)

lemma transfersI:
  assumes "\<And>d0 lg. \<exists>r d evs. m (d0, lg) = Some (r, (d, lg @ evs)) \<and>
        (\<exists>j\<le>length xs. written evs = take j xs) \<and> requested evs \<le> k \<and>
        ((\<exists>a. r = Inr a) \<longrightarrow> written evs = xs \<and> requested evs = k)"
  shows "transfers m xs k"
  using assms unfolding transfers_def by blast

lemma transfersD:
  assumes "transfers m xs k"
  obtains r d evs where "m (d0, lg) = Some (r, (d, lg @ evs))"
    and "\<exists>j\<le>length xs. written evs = take j xs" and "requested evs \<le> k"
    and "(\<exists>a. r = Inr a) \<longrightarrow> written evs = xs \<and> requested evs = k"
  using assms unfolding transfers_def by blast

lemma transfers_return: "transfers (return_io a) [] 0"
  by (rule transfersI) (simp add: return_io_def)

lemma transfers_throw: "transfers (throw_io e) xs k"
proof (rule transfersI)
  fix d0 lg
  have "throw_io e (d0, lg) = Some (Inl e, (d0, lg @ []))" by (simp add: throw_io_def)
  moreover have "written [] = take 0 xs" by simp
  ultimately show "\<exists>r d evs. throw_io e (d0, lg) = Some (r, (d, lg @ evs)) \<and>
        (\<exists>j\<le>length xs. written evs = take j xs) \<and> requested evs \<le> k \<and>
        ((\<exists>a. r = Inr a) \<longrightarrow> written evs = xs \<and> requested evs = k)"
    by (intro exI[of _ "Inl e"] exI[of _ d0] exI[of _ "[]"]) auto
qed

lemma transfers_bind:
  assumes m: "transfers m xs k" and f: "\<And>a. transfers (f a) ys n"
  shows "transfers (bind_io m f) (xs @ ys) (k + n)"
proof (rule transfersI)
  fix d0 lg
  from m obtain r d evs where
    r: "m (d0, lg) = Some (r, (d, lg @ evs))"
    and pj: "\<exists>j\<le>length xs. written evs = take j xs"
    and pk: "requested evs \<le> k"
    and po: "(\<exists>a. r = Inr a) \<longrightarrow> written evs = xs \<and> requested evs = k"
    by (rule transfersD)
  show "\<exists>r d evs. bind_io m f (d0, lg) = Some (r, (d, lg @ evs)) \<and>
        (\<exists>j\<le>length (xs @ ys). written evs = take j (xs @ ys)) \<and> requested evs \<le> k + n \<and>
        ((\<exists>a. r = Inr a) \<longrightarrow> written evs = xs @ ys \<and> requested evs = k + n)"
  proof (cases r)
    case (Inl e)
    then have "bind_io m f (d0, lg) = Some (Inl e, (d, lg @ evs))" using r by (simp add: bind_io_def)
    moreover from pj obtain j where "j \<le> length xs" "written evs = take j xs" by blast
    then have "j \<le> length (xs @ ys)" "written evs = take j (xs @ ys)" by simp_all
    ultimately show ?thesis using pk
      by (intro exI[of _ "Inl e"] exI[of _ d] exI[of _ evs]) auto
  next
    case (Inr a)
    then have w: "written evs = xs" "requested evs = k" using po by blast+
    from f[of a] obtain r2 d2 evs2 where
      r2: "f a (d, lg @ evs) = Some (r2, (d2, (lg @ evs) @ evs2))"
      and pj2: "\<exists>j\<le>length ys. written evs2 = take j ys"
      and pk2: "requested evs2 \<le> n"
      and po2: "(\<exists>a. r2 = Inr a) \<longrightarrow> written evs2 = ys \<and> requested evs2 = n"
      by (rule transfersD)
    have b: "bind_io m f (d0, lg) = Some (r2, (d2, lg @ (evs @ evs2)))"
      using r Inr r2 by (simp add: bind_io_def)
    from pj2 obtain j where j: "j \<le> length ys" "written evs2 = take j ys" by blast
    have "written (evs @ evs2) = take (length xs + j) (xs @ ys)" using w j by simp
    moreover have "length xs + j \<le> length (xs @ ys)" using j by simp
    ultimately have a: "\<exists>j\<le>length (xs @ ys). written (evs @ evs2) = take j (xs @ ys)" by blast
    have c: "(\<exists>a. r2 = Inr a) \<longrightarrow> written (evs @ evs2) = xs @ ys \<and> requested (evs @ evs2) = k + n"
      using po2 w by simp
    have k: "requested (evs @ evs2) \<le> k + n" using w pk2 by simp
    show ?thesis using b a c k by blast
  qed
qed

lemma transfers_rx_chunk:
  assumes B: "1 \<le> serial_rxbuf_size P"
  shows "transfers (rx_chunk P port n) [] n"
proof (induction n rule: less_induct)
  case (less n)
  show ?case
  proof (cases "n = 0")
    case True
    have "rx_chunk P port n = return_io []"
      using True by (auto simp: rx_chunk_0 return_io_def)
    then show ?thesis using True transfers_return[of "[]"] by simp
  next
    case False
    then have npos: "0 < n" by simp
    define c where "c = (if n > serial_rxbuf_size P then serial_rxbuf_size P else n)"
    have cpos: "0 < c" and cle: "c \<le> n" using False B by (auto simp: c_def)
    have lt: "n - c < n" using cpos cle by simp
    note IH = less.IH[OF lt]
    show ?thesis
    proof (rule transfersI)
      fix d0 lg
      obtain res d1 where rp: "read_port port d0 c = (res, d1)" by (cases "read_port port d0 c")
      define e0 where "e0 = READ_PORT c res"
      note step = rx_chunk_step[OF npos c_def rp, of lg, folded e0_def]
      show "\<exists>r d evs. rx_chunk P port n (d0, lg) = Some (r, (d, lg @ evs)) \<and>
        (\<exists>j\<le>length []. written evs = take j []) \<and> requested evs \<le> n \<and>
        ((\<exists>a. r = Inr a) \<longrightarrow> written evs = [] \<and> requested evs = n)"
      proof (cases "\<exists>bs. res = Some bs \<and> length bs = c")
        case False
        then obtain e where "rx_chunk P port n (d0, lg) = Some (Inl e, (d1, lg @ [e0]))"
          using step by (cases res) auto
        then show ?thesis using cle
          by (intro exI[of _ "Inl e"] exI[of _ d1] exI[of _ "[e0]"]) (simp add: e0_def)
      next
        case True
        then obtain bs where bs: "res = Some bs" "length bs = c" by blast
        from IH obtain r d evs where
          r: "rx_chunk P port (n - c) (d1, lg @ [e0]) = Some (r, (d, (lg @ [e0]) @ evs))"
          and pj: "\<exists>j\<le>length ([] :: byte list). written evs = take j []"
          and pk: "requested evs \<le> n - c"
          and po: "(\<exists>a. r = Inr a) \<longrightarrow> written evs = [] \<and> requested evs = n - c"
          by (rule transfersD)
        have res: "rx_chunk P port n (d0, lg) =
            Some ((case r of Inl e \<Rightarrow> Inl e | Inr rest \<Rightarrow> Inr (bs @ rest)), (d, lg @ (e0 # evs)))"
          using step bs r by simp
        have w: "written (e0 # evs) = []" using pj by (simp add: e0_def)
        have k: "requested (e0 # evs) \<le> n" using pk cle by (simp add: e0_def)
        have o: "(\<exists>a. (case r of Inl e \<Rightarrow> Inl e | Inr rest \<Rightarrow> Inr (bs @ rest)) = Inr a) \<longrightarrow>
            requested (e0 # evs) = n"
          using po cle by (auto simp: e0_def split: sum.splits)
        show ?thesis using res w k o
          by (intro exI[of _ "case r of Inl e \<Rightarrow> Inl e | Inr rest \<Rightarrow> Inr (bs @ rest)"]
                exI[of _ d] exI[of _ "e0 # evs"]) auto
      qed
    qed
  qed
qed

lemma tx_chunk_0: "tx_chunk P port tx 0 w = Some (Inr (), w)"
  by (subst tx_chunk.simps) simp

lemma tx_chunk_step:
  assumes "0 < N" and "c = (if N > serial_txbuf_size P then serial_txbuf_size P else N)"
    and "write_port port d (take c tx) = (res, d1)"
  shows "tx_chunk P port tx N (d, lg) =
    (case res of
       None \<Rightarrow> Some (Inl SERIAL_COM_EXCEPTION, (d1, lg @ [WRITE_PORT (take c tx) res]))
     | Some x \<Rightarrow>
        if x \<noteq> c then Some (Inl (APP_ERROR_TX_FAIL c x), (d1, lg @ [WRITE_PORT (take c tx) res]))
        else tx_chunk P port (drop c tx) (N - c) (d1, lg @ [WRITE_PORT (take c tx) res]))"
proof -
  have pw: "port_write port (take c tx) (d, lg) =
      ((case res of None \<Rightarrow> Inl SERIAL_COM_EXCEPTION | Some n \<Rightarrow> Inr n),
       (d1, lg @ [WRITE_PORT (take c tx) res]))"
    by (simp add: port_write_def assms(3))
  show ?thesis
    apply (subst tx_chunk.simps)
    apply (simp only: assms(2)[symmetric] Let_def pw)
    using assms(1) apply (simp split: option.splits)
    done
qed

lemma transfers_tx_chunk:
  assumes B: "1 \<le> serial_txbuf_size P"
  shows "N \<le> length tx \<Longrightarrow> transfers (tx_chunk P port tx N) (take N tx) 0"
proof (induction N arbitrary: tx rule: less_induct)
  case (less N)
  show ?case
  proof (cases "N = 0")
    case True
    have "tx_chunk P port tx N = return_io ()"
      using True by (auto simp: tx_chunk_0 return_io_def)
    then show ?thesis using True transfers_return[of "()"] by simp
  next
    case False
    then have npos: "0 < N" by simp
    define c where "c = (if N > serial_txbuf_size P then serial_txbuf_size P else N)"
    have cpos: "0 < c" and cle: "c \<le> N" using False B by (auto simp: c_def)
    have lt: "N - c < N" using cpos cle by simp
    have p1: "N - c \<le> length (drop c tx)" using less.prems by simp
    note IH = less.IH[OF lt p1]
    have full: "take c tx @ take (N - c) (drop c tx) = take N tx"
      using cle by (metis le_add_diff_inverse take_add)
    show ?thesis
    proof (rule transfersI)
      fix d0 lg
      obtain res d1 where wp: "write_port port d0 (take c tx) = (res, d1)"
        by (cases "write_port port d0 (take c tx)")
      define e0 where "e0 = WRITE_PORT (take c tx) res"
      note step = tx_chunk_step[OF npos c_def wp, of lg, folded e0_def]
      have tk: "take c tx = take c (take N tx)" using cle by (simp add: min_def)
      have cl: "c \<le> length (take N tx)" using cle less.prems by simp
      have short: "\<exists>j\<le>length (take N tx). written [e0] = take j (take N tx)"
        using tk cl by (auto simp: e0_def intro!: exI[of _ c])
      show "\<exists>r d evs. tx_chunk P port tx N (d0, lg) = Some (r, (d, lg @ evs)) \<and>
        (\<exists>j\<le>length (take N tx). written evs = take j (take N tx)) \<and> requested evs \<le> 0 \<and>
        ((\<exists>a. r = Inr a) \<longrightarrow> written evs = take N tx \<and> requested evs = 0)"
      proof (cases "res = Some c")
        case False
        then obtain e where "tx_chunk P port tx N (d0, lg) = Some (Inl e, (d1, lg @ [e0]))"
          using step by (cases res) auto
        then show ?thesis using short
          by (intro exI[of _ "Inl e"] exI[of _ d1] exI[of _ "[e0]"]) (simp add: e0_def)
      next
        case True
        from IH obtain r d evs where
          r: "tx_chunk P port (drop c tx) (N - c) (d1, lg @ [e0]) = Some (r, (d, (lg @ [e0]) @ evs))"
          and pj: "\<exists>j\<le>length (take (N - c) (drop c tx)). written evs = take j (take (N - c) (drop c tx))"
          and pk: "requested evs \<le> 0"
          and po: "(\<exists>a. r = Inr a) \<longrightarrow> written evs = take (N - c) (drop c tx) \<and> requested evs = 0"
          by (rule transfersD)
        have res: "tx_chunk P port tx N (d0, lg) = Some (r, (d, lg @ (e0 # evs)))"
          using step True r by simp
        from pj obtain j where j: "j \<le> length (take (N - c) (drop c tx))"
          "written evs = take j (take (N - c) (drop c tx))" by blast
        have lc: "length (take c tx) = c" using cle less.prems by simp
        have "written (e0 # evs) = take c tx @ take j (take (N - c) (drop c tx))"
          using j by (simp add: e0_def)
        also have "\<dots> = take (c + j) (take c tx @ take (N - c) (drop c tx))" using lc by simp
        finally have "written (e0 # evs) = take (c + j) (take N tx)" using full by simp
        moreover have "c + j \<le> length (take N tx)" using j(1) cle less.prems by simp
        ultimately have a: "\<exists>j\<le>length (take N tx). written (e0 # evs) = take j (take N tx)" by blast
        have b: "(\<exists>a. r = Inr a) \<longrightarrow> written (e0 # evs) = take N tx \<and> requested (e0 # evs) = 0"
          using po full by (simp add: e0_def)
        have k: "requested (e0 # evs) \<le> 0" using pk by (simp add: e0_def)
        show ?thesis using res a b k by blast
      qed
    qed
  qed
qed


lemma tbug11_txrx_0: "tbug11_txrx_chunk P port tx 0 pol w = Some (Inr [], w)"
  by (subst tbug11_txrx_chunk.simps) simp

lemma tbug11_txrx_step:
  assumes "0 < N" and "c = (if N > serial_txbuf_size P then serial_txbuf_size P else N)"
    and "write_port port d (take c tx) = (res, d1)"
  shows "tbug11_txrx_chunk P port tx N pol (d, lg) =
    (case res of
       None \<Rightarrow> Some (Inl SERIAL_COM_EXCEPTION, (d1, lg @ [WRITE_PORT (take c tx) res]))
     | Some x \<Rightarrow>
        if x \<noteq> c then Some (Inl (APP_ERROR_TX_FAIL c x), (d1, lg @ [WRITE_PORT (take c tx) res]))
        else Option.bind (rx_chunk P port c (d1, lg @ [WRITE_PORT (take c tx) res]))
              (\<lambda>(r, w2).
                 case r of
                   Inl e \<Rightarrow> Some (Inl e, w2)
                 | Inr rs \<Rightarrow>
                     (case (case pol of
                              TALKER_ECHO_VERIFY \<Rightarrow> verify_echo tx rs c
                            | TALKER_ECHO_VERIFY_COM \<Rightarrow> verify_echo_com tx rs c
                            | TALKER_ECHO_IGNORE \<Rightarrow> Inr ()) of
                        Inl e \<Rightarrow> Some (Inl e, w2)
                      | Inr _ \<Rightarrow>
                          Option.bind (tbug11_txrx_chunk P port (drop c tx) (N - c) pol w2)
                            (\<lambda>(r3, w3).
                               Some ((case r3 of Inl e \<Rightarrow> Inl e
                                      | Inr rest \<Rightarrow> Inr (rs @ rest)), w3)))))"
proof -
  have pw: "port_write port (take c tx) (d, lg) =
      ((case res of None \<Rightarrow> Inl SERIAL_COM_EXCEPTION | Some n \<Rightarrow> Inr n),
       (d1, lg @ [WRITE_PORT (take c tx) res]))"
    by (simp add: port_write_def assms(3))
  show ?thesis
    apply (subst tbug11_txrx_chunk.simps)
    apply (simp only: assms(2)[symmetric] Let_def pw)
    using assms(1) apply (simp split: option.splits)
    done
qed

lemma verify_echo_eq:
  assumes "length rs = c" "c \<le> length tx"
  shows "verify_echo tx rs c = Inr () \<longleftrightarrow> rs = take c tx"
proof -
  have "(\<forall>j. 0 \<le> j \<and> j < c \<longrightarrow> rs ! j = tx ! j) \<longleftrightarrow> rs = take c tx"
    using assms by (auto simp: list_eq_iff_nth_eq)
  then show ?thesis by (simp add: verify_echo_def verify_echo_from_ok)
qed

lemma verify_echo_com_eq:
  assumes "length rs = c" "c \<le> length tx"
  shows "verify_echo_com tx rs c = Inr () \<longleftrightarrow> rs = map NOT (take c tx)"
proof -
  have "(\<forall>j. 0 \<le> j \<and> j < c \<longrightarrow> rs ! j = NOT (tx ! j)) \<longleftrightarrow> rs = map NOT (take c tx)"
    using assms by (auto simp: list_eq_iff_nth_eq)
  then show ?thesis by (simp add: verify_echo_com_def verify_echo_com_from_ok)
qed

lemma policy_check_ok:
  assumes "length rs = c" "c \<le> length tx"
  shows "(case pol of
            TALKER_ECHO_VERIFY \<Rightarrow> verify_echo tx rs c
          | TALKER_ECHO_VERIFY_COM \<Rightarrow> verify_echo_com tx rs c
          | TALKER_ECHO_IGNORE \<Rightarrow> Inr ()) = Inr () \<longleftrightarrow> echo_ok pol (take c tx) rs"
  using verify_echo_eq[OF assms] verify_echo_com_eq[OF assms]
  by (cases pol) (simp_all add: echo_ok_def)

lemma echo_ok_append:
  assumes "echo_ok pol xs rs" "echo_ok pol ys rs'" "length xs = length rs"
  shows "echo_ok pol (xs @ ys) (rs @ rs')"
  using assms by (cases pol) (simp_all add: echo_ok_def)

lemma tbug11_txrx_any:
  assumes Bt: "1 \<le> serial_txbuf_size P" and Br: "1 \<le> serial_rxbuf_size P"
  shows "N \<le> length tx \<Longrightarrow>
    \<exists>r d evs. tbug11_txrx_chunk P port tx N pol (d0, lg) = Some (r, (d, lg @ evs)) \<and>
      (\<exists>j\<le>N. written evs = take j tx) \<and> requested evs \<le> N \<and>
      (\<forall>rs. r = Inr rs \<longrightarrow> written evs = take N tx \<and> requested evs = N \<and> length rs = N \<and>
               echo_ok pol (take N tx) rs)"
proof (induction N arbitrary: tx d0 lg rule: less_induct)
  case (less N)
  show ?case
  proof (cases "N = 0")
    case True
    then show ?thesis using tbug11_txrx_0[of P port tx pol "(d0, lg)"]
      by (intro exI[of _ "Inr []"] exI[of _ d0] exI[of _ "[]"]) (cases pol; simp add: echo_ok_def)
  next
    case False
    then have npos: "0 < N" by simp
    define c where "c = (if N > serial_txbuf_size P then serial_txbuf_size P else N)"
    have cpos: "0 < c" and cle: "c \<le> N" using False Bt by (auto simp: c_def)
    have clen: "c \<le> length tx" using cle less.prems by simp
    obtain res d1 where wp: "write_port port d0 (take c tx) = (res, d1)"
      by (cases "write_port port d0 (take c tx)")
    define e0 where "e0 = WRITE_PORT (take c tx) res"
    define lg1 where "lg1 = lg @ [e0]"
    note step = tbug11_txrx_step[OF npos c_def wp, of pol lg, folded e0_def, folded lg1_def]
    have full: "take c tx @ take (N - c) (drop c tx) = take N tx"
      using cle by (metis le_add_diff_inverse take_add)
    have fin: ?thesis if "tbug11_txrx_chunk P port tx N pol (d0, lg) = Some (r, (d, lg @ e0 # evs))"
      and "\<exists>j\<le>N - c. written evs = take j (drop c tx)" and "requested evs \<le> N"
      and "\<forall>rs. r = Inr rs \<longrightarrow> written evs = take (N - c) (drop c tx) \<and> requested evs = N \<and>
            length rs = N \<and> echo_ok pol (take N tx) rs" for r d evs
    proof -
      from that(2) obtain j where j: "j \<le> N - c" "written evs = take j (drop c tx)" by blast
      have "take c tx @ take j (drop c tx) = take (c + j) tx" by (simp add: take_add)
      then have a: "\<exists>j\<le>N. written (e0 # evs) = take j tx"
        using j cle by (intro exI[of _ "c + j"]) (simp add: e0_def)
      have b: "\<forall>rs. r = Inr rs \<longrightarrow> written (e0 # evs) = take N tx \<and> requested (e0 # evs) = N \<and>
            length rs = N \<and> echo_ok pol (take N tx) rs"
        using that(4) full by (simp add: e0_def)
      have k: "requested (e0 # evs) \<le> N" using that(3) by (simp add: e0_def)
      show ?thesis using that(1) a b k
        by (intro exI[of _ r] exI[of _ d] exI[of _ "e0 # evs"]) simp
    qed
    have fail: ?thesis if "tbug11_txrx_chunk P port tx N pol (d0, lg) = Some (Inl e, (d, lg @ e0 # evs))"
      and "written evs = []" and "requested evs \<le> N" for e d evs
    proof -
      have "\<exists>j\<le>N - c. written evs = take j (drop c tx)" using that(2) by (intro exI[of _ 0]) simp
      then show ?thesis using that by (intro fin[of "Inl e" d evs]) simp_all
    qed
    show ?thesis
    proof (cases "res = Some c")
      case False
      then obtain e where "tbug11_txrx_chunk P port tx N pol (d0, lg) = Some (Inl e, (d1, lg @ e0 # []))"
        using step by (cases res) (auto simp: lg1_def)
      then show ?thesis by (rule fail) simp_all
    next
      case True
      from transfers_rx_chunk[OF Br, of port c] obtain r1 d2 evs1 where
        rx: "rx_chunk P port c (d1, lg1) = Some (r1, (d2, lg1 @ evs1))"
        and w1: "\<exists>j\<le>length ([] :: byte list). written evs1 = take j []"
        and k1: "requested evs1 \<le> c"
        and o1: "(\<exists>a. r1 = Inr a) \<longrightarrow> written evs1 = [] \<and> requested evs1 = c"
        by (rule transfersD)
      have w1': "written evs1 = []" using w1 by simp
      from rx_chunk_any[OF Br, of port c d1 lg1] rx
      have l1: "\<forall>bs. r1 = Inr bs \<longrightarrow> length bs = c" by auto
      have k1': "requested evs1 \<le> N" using k1 cle by simp
      show ?thesis
      proof (cases r1)
        case (Inl e)
        then have "tbug11_txrx_chunk P port tx N pol (d0, lg) = Some (Inl e, (d2, lg @ e0 # evs1))"
          using step True rx by (simp add: lg1_def)
        then show ?thesis using w1' k1' by (rule fail)
      next
        case (Inr rs)
        then have lrs: "length rs = c" and rq: "requested evs1 = c" using l1 o1 by auto
        note pc = policy_check_ok[OF lrs clen, of pol]
        show ?thesis
        proof (cases "case pol of
                              TALKER_ECHO_VERIFY \<Rightarrow> verify_echo tx rs c
                            | TALKER_ECHO_VERIFY_COM \<Rightarrow> verify_echo_com tx rs c
                            | TALKER_ECHO_IGNORE \<Rightarrow> Inr ()")
          case (Inl e)
          then have "tbug11_txrx_chunk P port tx N pol (d0, lg) = Some (Inl e, (d2, lg @ e0 # evs1))"
            using step True rx Inr by (simp add: lg1_def)
          then show ?thesis using w1' k1' by (rule fail)
        next
          case ok: (Inr u)
          then have eo: "echo_ok pol (take c tx) rs" using pc by simp
          have lt: "N - c < N" using cpos cle by simp
          have p1: "N - c \<le> length (drop c tx)" using less.prems by simp
          from less.IH[OF lt p1, of d2 "lg1 @ evs1"] obtain r d evs where
            rr: "tbug11_txrx_chunk P port (drop c tx) (N - c) pol (d2, lg1 @ evs1) =
                   Some (r, (d, (lg1 @ evs1) @ evs)) \<and>
                 (\<exists>j\<le>N - c. written evs = take j (drop c tx)) \<and> requested evs \<le> N - c \<and>
                 (\<forall>rs. r = Inr rs \<longrightarrow> written evs = take (N - c) (drop c tx) \<and>
                     requested evs = N - c \<and> length rs = N - c \<and>
                     echo_ok pol (take (N - c) (drop c tx)) rs)"
            by (elim exE) (rule that)
          define r' where "r' = (case r of Inl e \<Rightarrow> Inl e | Inr rest \<Rightarrow> Inr (rs @ rest))"
          have res: "tbug11_txrx_chunk P port tx N pol (d0, lg) = Some (r', (d, lg @ e0 # (evs1 @ evs)))"
            using step True rx Inr ok rr by (simp add: lg1_def r'_def)
          have a: "\<exists>j\<le>N - c. written (evs1 @ evs) = take j (drop c tx)" using rr w1' by simp
          have "requested evs \<le> N - c" using rr by blast
          then have k: "requested (evs1 @ evs) \<le> N" using rq cle by simp
          have b: "\<forall>xs. r' = Inr xs \<longrightarrow> written (evs1 @ evs) = take (N - c) (drop c tx) \<and>
              requested (evs1 @ evs) = N \<and> length xs = N \<and> echo_ok pol (take N tx) xs"
          proof (intro allI impI)
            fix xs assume "r' = Inr xs"
            then obtain rest where rest: "r = Inr rest" "xs = rs @ rest"
              by (auto simp: r'_def split: sum.splits)
            with rr have q: "written evs = take (N - c) (drop c tx)" "requested evs = N - c"
              "length rest = N - c" "echo_ok pol (take (N - c) (drop c tx)) rest" by auto
            have "echo_ok pol (take c tx @ take (N - c) (drop c tx)) (rs @ rest)"
              using eo q(4) lrs clen by (intro echo_ok_append) simp_all
            then show "written (evs1 @ evs) = take (N - c) (drop c tx) \<and>
              requested (evs1 @ evs) = N \<and> length xs = N \<and> echo_ok pol (take N tx) xs"
              using q w1' rq rest lrs cle full by simp
          qed
          show ?thesis using res a k b by (rule fin)
        qed
      qed
    qed
  qed
qed

section \<open>EEPROM programming\<close>

lemma transfers_tbug11_txrx:
  assumes Bt: "1 \<le> serial_txbuf_size P" and Br: "1 \<le> serial_rxbuf_size P"
    and len: "N \<le> length tx"
  shows "transfers (tbug11_txrx_chunk P port tx N pol) (take N tx) N"
proof (rule transfersI)
  fix d0 lg
  from tbug11_txrx_any[OF Bt Br len, of port pol d0 lg] obtain r d evs where
    a: "tbug11_txrx_chunk P port tx N pol (d0, lg) = Some (r, (d, lg @ evs)) \<and>
      (\<exists>j\<le>N. written evs = take j tx) \<and> requested evs \<le> N \<and>
      (\<forall>rs. r = Inr rs \<longrightarrow> written evs = take N tx \<and> requested evs = N \<and> length rs = N \<and>
               echo_ok pol (take N tx) rs)"
    by (elim exE) (rule that)
  then obtain j where j: "j \<le> N" "written evs = take j tx" by blast
  have "take j tx = take j (take N tx)" using j(1) by (simp add: min_def)
  then have "\<exists>j\<le>length (take N tx). written evs = take j (take N tx)"
    using j len by (intro exI[of _ j]) simp
  then show "\<exists>r d evs. tbug11_txrx_chunk P port tx N pol (d0, lg) = Some (r, (d, lg @ evs)) \<and>
        (\<exists>j\<le>length (take N tx). written evs = take j (take N tx)) \<and> requested evs \<le> N \<and>
        ((\<exists>a. r = Inr a) \<longrightarrow> written evs = take N tx \<and> requested evs = N)"
    using a by (intro exI[of _ r] exI[of _ d] exI[of _ evs]) auto
qed

lemma transfers_tbug11_command:
  assumes Bt: "1 \<le> serial_txbuf_size P" and Br: "1 \<le> serial_rxbuf_size P"
  shows "transfers (tbug11_command P port cmd len a) [cmd, len, addr_hi a, addr_lo a] 1"
proof -
  have 1: "transfers (tbug11_txrx_chunk P port [cmd] 1 TALKER_ECHO_VERIFY_COM) (take 1 [cmd]) 1"
    by (rule transfers_tbug11_txrx[OF Bt Br]) simp
  have 2: "transfers (tx_chunk P port [len, addr_hi a, addr_lo a] 3) (take 3 [len, addr_hi a, addr_lo a]) 0"
    by (rule transfers_tx_chunk[OF Bt]) simp
  show ?thesis
    unfolding tbug11_command_def using transfers_bind[OF 1, of "\<lambda>_. tx_chunk P port [len, addr_hi a, addr_lo a] 3", OF 2]
    by simp
qed

lemma transfers_writemem_byte:
  assumes Bt: "1 \<le> serial_txbuf_size P" and Br: "1 \<le> serial_rxbuf_size P"
  shows "transfers (writemem_byte P port a v) (poke a v) 2"
proof -
  have 1: "transfers (tbug11_command P port TBUG11_TALKER_WRITE_CMD 1 a) [0x41, 1, addr_hi a, addr_lo a] 1"
    using transfers_tbug11_command[OF Bt Br, of port TBUG11_TALKER_WRITE_CMD 1 a]
    by (simp add: TBUG11_TALKER_WRITE_CMD_def)
  have 2: "transfers (tbug11_txrx_chunk P port [v, addr_hi a, addr_lo a] 1 TALKER_ECHO_VERIFY)
      (take 1 [v, addr_hi a, addr_lo a]) 1"
    by (rule transfers_tbug11_txrx[OF Bt Br]) simp
  have 3: "transfers (bind_io (tbug11_txrx_chunk P port [v, addr_hi a, addr_lo a] 1 TALKER_ECHO_VERIFY)
      (\<lambda>_. return_io ())) (take 1 [v, addr_hi a, addr_lo a] @ []) (1 + 0)"
    by (rule transfers_bind[OF 2]) (rule transfers_return)
  have "transfers (writemem_byte P port a v) ([0x41, 1, addr_hi a, addr_lo a] @ take 1 [v, addr_hi a, addr_lo a] @ []) (1 + (1 + 0))"
    unfolding writemem_byte_def by (rule transfers_bind[OF 1]) (rule 3)
  moreover have "1 + (1 + 0) = (2::nat)" by simp
  ultimately show ?thesis by (simp only: poke_def append.simps take_Suc_Cons take_0 One_nat_def)
qed

lemma transfers_four:
  assumes "transfers m1 x1 2" "transfers m2 x2 2" "transfers m3 x3 2" "transfers m4 x4 2"
  shows "transfers (bind_io m1 (\<lambda>_. bind_io m2 (\<lambda>_. bind_io m3 (\<lambda>_. m4)))) (x1 @ x2 @ x3 @ x4) 8"
proof -
  have "transfers (bind_io m3 (\<lambda>_. m4)) (x3 @ x4) (2 + 2)"
    by (rule transfers_bind[OF assms(3)]) (rule assms(4))
  then have "transfers (bind_io m2 (\<lambda>_. bind_io m3 (\<lambda>_. m4))) (x2 @ x3 @ x4) (2 + (2 + 2))"
    by (intro transfers_bind[OF assms(2)])
  then have "transfers (bind_io m1 (\<lambda>_. bind_io m2 (\<lambda>_. bind_io m3 (\<lambda>_. m4))))
      (x1 @ x2 @ x3 @ x4) (2 + (2 + (2 + 2)))"
    by (intro transfers_bind[OF assms(1)])
  then show ?thesis by simp
qed

lemma transfers_ee_byte:
  assumes Bt: "1 \<le> serial_txbuf_size P" and Br: "1 \<le> serial_rxbuf_size P"
    and rest: "\<And>u. transfers (rest_m u) xs k"
  shows "transfers
    (bind_io (if a = HC11_CONFIG_ADDR then eeprom_bulk_erase P port a v else eeprom_byte_erase P port a v)
       (\<lambda>_. bind_io (eeprom_prog_byte P port a v) rest_m))
    (ee_byte_sequence a v @ xs) (16 + k)"
proof -
  note W = transfers_writemem_byte[OF Bt Br]
  have bulk: "transfers (eeprom_bulk_erase P port a v)
      (poke 0x103B 0x06 @ poke a v @ poke 0x103B 0x07 @ poke 0x103B 0x00) 8"
    unfolding eeprom_bulk_erase_def by (rule transfers_four) (rule W)+
  have byt: "transfers (eeprom_byte_erase P port a v)
      (poke 0x103B 0x16 @ poke a v @ poke 0x103B 0x17 @ poke 0x103B 0x00) 8"
    unfolding eeprom_byte_erase_def by (rule transfers_four) (rule W)+
  have prog: "transfers (eeprom_prog_byte P port a v)
      (poke 0x103B 0x02 @ poke a v @ poke 0x103B 0x03 @ poke 0x103B 0x00) 8"
    unfolding eeprom_prog_byte_def by (rule transfers_four) (rule W)+
  have erase: "transfers (if a = HC11_CONFIG_ADDR then eeprom_bulk_erase P port a v else eeprom_byte_erase P port a v)
      (if a = 0x103F then poke 0x103B 0x06 @ poke a v @ poke 0x103B 0x07 @ poke 0x103B 0x00
       else poke 0x103B 0x16 @ poke a v @ poke 0x103B 0x17 @ poke 0x103B 0x00) 8"
    using bulk byt by (cases "a = 0x103F") (simp_all add: HC11_CONFIG_ADDR_def)
  have "transfers (bind_io (eeprom_prog_byte P port a v) rest_m)
      ((poke 0x103B 0x02 @ poke a v @ poke 0x103B 0x03 @ poke 0x103B 0x00) @ xs) (8 + k)"
    by (rule transfers_bind[OF prog]) (rule rest)
  then have "transfers
    (bind_io (if a = HC11_CONFIG_ADDR then eeprom_bulk_erase P port a v else eeprom_byte_erase P port a v)
       (\<lambda>_. bind_io (eeprom_prog_byte P port a v) rest_m))
    ((if a = 0x103F then poke 0x103B 0x06 @ poke a v @ poke 0x103B 0x07 @ poke 0x103B 0x00
       else poke 0x103B 0x16 @ poke a v @ poke 0x103B 0x17 @ poke 0x103B 0x00) @
     ((poke 0x103B 0x02 @ poke a v @ poke 0x103B 0x03 @ poke 0x103B 0x00) @ xs)) (8 + (8 + k))"
    by (intro transfers_bind[OF erase])
  then show ?thesis by (simp add: ee_byte_sequence_def)
qed

lemma transfers_write_ee_bytes:
  assumes Bt: "1 \<le> serial_txbuf_size P" and Br: "1 \<le> serial_rxbuf_size P"
  shows "i \<le> unat n \<Longrightarrow>
    transfers (write_ee_bytes P port l n i (base + of_nat i))
      (concat (map (\<lambda>j. ee_byte_sequence (base + of_nat j) (record_byte l j)) [i..<unat n]))
      (16 * (unat n - i))"
proof (induction "unat n - i" arbitrary: i)
  case 0
  then have "i = unat n" by simp
  then show ?case using transfers_return[of "()"]
    by (simp add: write_ee_bytes.simps[of P port l n "unat n"])
next
  case (Suc m)
  then have lt: "i < unat n" by simp
  have up: "[i..<unat n] = i # [i + 1..<unat n]" using lt by (simp add: upt_conv_Cons)
  show ?case
  proof (cases "2 * i + 8 > length l")
    case True
    then have "write_ee_bytes P port l n i (base + of_nat i) = throw_io STD_OUT_OF_RANGE"
      using lt by (simp add: write_ee_bytes.simps[of P port l n i] substr_def)
    then show ?thesis using transfers_throw by simp
  next
    case False
    have m: "m = unat n - (i + 1)" using Suc.hyps(2) by simp
    have le: "i + 1 \<le> unat n" using lt by simp
    have ad: "base + of_nat i + 1 = base + of_nat (i + 1)" by simp
    have IH: "transfers (write_ee_bytes P port l n (i + 1) (base + of_nat i + 1))
      (concat (map (\<lambda>j. ee_byte_sequence (base + of_nat j) (record_byte l j)) [i + 1..<unat n]))
      (16 * (unat n - (i + 1)))"
      unfolding ad by (rule Suc.hyps(1)[OF m le])
    have st: "write_ee_bytes P port l n i (base + of_nat i) =
        bind_io (if base + of_nat i = HC11_CONFIG_ADDR
                 then eeprom_bulk_erase P port (base + of_nat i) (record_byte l i)
                 else eeprom_byte_erase P port (base + of_nat i) (record_byte l i))
          (\<lambda>_. bind_io (eeprom_prog_byte P port (base + of_nat i) (record_byte l i))
             (\<lambda>_. write_ee_bytes P port l n (i + 1) (base + of_nat i + 1)))"
      using lt False by (simp add: write_ee_bytes.simps[of P port l n i] substr_def record_byte_def Let_def)
    have k: "16 + 16 * (unat n - (i + 1)) = 16 * (unat n - i)" using lt by simp
    have "transfers (write_ee_bytes P port l n i (base + of_nat i))
        (ee_byte_sequence (base + of_nat i) (record_byte l i) @
         concat (map (\<lambda>j. ee_byte_sequence (base + of_nat j) (record_byte l j)) [i + 1..<unat n]))
        (16 + 16 * (unat n - (i + 1)))"
      unfolding st
      by (rule transfers_ee_byte[OF Bt Br, of "\<lambda>_. write_ee_bytes P port l n (i + 1) (base + of_nat i + 1)", OF IH])
    then show ?thesis unfolding up k by simp
  qed
qed

lemma transfers_write_ee_line:
  assumes Bt: "1 \<le> serial_txbuf_size P" and Br: "1 \<le> serial_rxbuf_size P"
  shows "transfers (write_ee_line P port l) (ee_record_sequence l) (ee_record_reads l)"
proof (cases "length l \<ge> 8 \<and> take 2 l = ''S1''")
  case True
  then show ?thesis
    using transfers_write_ee_bytes[OF Bt Br, of 0 "srec_datacount_of l" port l "srec_addr_of l"]
    by (simp add: write_ee_line_def ee_record_sequence_def ee_record_reads_def)
next
  case False
  then have "write_ee_line P port l = return_io ()" by (auto simp: write_ee_line_def)
  then show ?thesis using False transfers_return[of "()"]
    by (auto simp: ee_record_sequence_def ee_record_reads_def)
qed

lemma transfers_write_ee:
  assumes Bt: "1 \<le> serial_txbuf_size P" and Br: "1 \<le> serial_rxbuf_size P"
  shows "transfers (write_ee P port ls) (concat (map ee_record_sequence ls))
           (sum_list (map ee_record_reads ls))"
proof (induction ls)
  case Nil
  then show ?case using transfers_return[of "()"] by simp
next
  case (Cons l ls)
  show ?case
    using transfers_bind[OF transfers_write_ee_line[OF Bt Br, of port l], of "\<lambda>_. write_ee P port ls", OF Cons.IH]
    by simp
qed

subsection \<open>A talker that answers as it should\<close>

lemma answeredI:
  assumes "\<And>rest lg. \<exists>a evs. m (es @ rest, lg) = Some (Inr a, (rest, lg @ evs)) \<and> written evs = xs"
  shows "answered m es xs"
  using assms unfolding answered_def by blast

lemma answeredD:
  assumes "answered m es xs"
  obtains a evs where "m (es @ rest, lg) = Some (Inr a, (rest, lg @ evs))" and "written evs = xs"
  using assms unfolding answered_def by blast

lemma answered_return: "answered (return_io a) [] []"
  by (rule answeredI) (simp add: return_io_def)

lemma answered_bind:
  assumes m: "answered m es xs" and f: "\<And>a. answered (f a) es' xs'"
  shows "answered (bind_io m f) (es @ es') (xs @ xs')"
proof (rule answeredI)
  fix rest lg
  from m obtain a evs where mw: "m (es @ (es' @ rest), lg) = Some (Inr a, (es' @ rest, lg @ evs))"
    and w: "written evs = xs"
    by (rule answeredD)
  from f[of a] obtain b evs2 where fw: "f a (es' @ rest, lg @ evs) = Some (Inr b, (rest, (lg @ evs) @ evs2))"
    and w2: "written evs2 = xs'"
    by (rule answeredD)
  from mw fw have "bind_io m f ((es @ es') @ rest, lg) = Some (Inr b, (rest, lg @ (evs @ evs2)))"
    by (simp add: bind_io_def)
  with w w2 show "\<exists>a evs. bind_io m f ((es @ es') @ rest, lg) = Some (Inr a, (rest, lg @ evs)) \<and>
      written evs = xs @ xs'"
    by (intro exI[of _ b] exI[of _ "evs @ evs2"]) simp
qed

lemma answered_tx_chunk:
  assumes B: "1 \<le> serial_txbuf_size P"
  shows "N \<le> length tx \<Longrightarrow> answered (tx_chunk P (stream_port f) tx N) [] (take N tx)"
proof (induction N arbitrary: tx rule: less_induct)
  case (less N)
  show ?case
  proof (cases "N = 0")
    case True
    have "tx_chunk P (stream_port f) tx N = return_io ()"
      using True by (auto simp: tx_chunk_0 return_io_def)
    then show ?thesis using True answered_return[of "()"] by simp
  next
    case False
    then have npos: "0 < N" by simp
    define c where "c = (if N > serial_txbuf_size P then serial_txbuf_size P else N)"
    have cpos: "0 < c" and cle: "c \<le> N" using False B by (auto simp: c_def)
    have lt: "N - c < N" using cpos cle by simp
    have p1: "N - c \<le> length (drop c tx)" using less.prems by simp
    note IH = less.IH[OF lt p1]
    have full: "take c tx @ take (N - c) (drop c tx) = take N tx"
      using cle by (metis le_add_diff_inverse take_add)
    have lc: "length (take c tx) = c" using cle less.prems by simp
    show ?thesis
    proof (rule answeredI)
      fix rest lg
      define e0 where "e0 = WRITE_PORT (take c tx) (Some c)"
      have wp: "write_port (stream_port f) ([] @ rest) (take c tx) = (Some c, [] @ rest)"
        unfolding stream_write lc by simp
      have step: "tx_chunk P (stream_port f) tx N ([] @ rest, lg) =
          tx_chunk P (stream_port f) (drop c tx) (N - c) ([] @ rest, lg @ [e0])"
        using tx_chunk_step[OF npos c_def wp, of lg] by (simp add: e0_def)
      from IH obtain a evs where
        r: "tx_chunk P (stream_port f) (drop c tx) (N - c) ([] @ rest, lg @ [e0]) =
              Some (Inr a, (rest, (lg @ [e0]) @ evs))"
        and w: "written evs = take (N - c) (drop c tx)"
        by (rule answeredD)
      have "written (e0 # evs) = take N tx"
        using w full by (simp add: e0_def)
      with step r show "\<exists>a evs. tx_chunk P (stream_port f) tx N ([] @ rest, lg) =
          Some (Inr a, (rest, lg @ evs)) \<and> written evs = take N tx"
        by (intro exI[of _ a] exI[of _ "e0 # evs"]) simp
    qed
  qed
qed

lemma answered_txrx_one:
  assumes Bt: "1 \<le> serial_txbuf_size P" and Br: "1 \<le> serial_rxbuf_size P"
    and echo: "echo_ok pol [b] [e]"
  shows "answered (tbug11_txrx_chunk P (stream_port f) (b # tl0) 1 pol) [e] [b]"
proof (rule answeredI)
  fix rest lg
  define e0 where "e0 = WRITE_PORT [b] (Some 1)"
  have c: "1 = (if 1 > serial_txbuf_size P then serial_txbuf_size P else 1)"
    using Bt by simp
  have wp: "write_port (stream_port f) ([e] @ rest) (take 1 (b # tl0)) = (Some 1, [e] @ rest)"
    by (simp add: stream_write)
  from rx_chunk_stream_ok[OF Br, of 1 "[e] @ rest" f "lg @ [e0]"] obtain evs where
    rx: "rx_chunk P (stream_port f) 1 ([e] @ rest, lg @ [e0]) =
           Some (Inr [e], (rest, (lg @ [e0]) @ evs))"
    and w: "written evs = []"
    by auto
  have chk: "(case pol of
                TALKER_ECHO_VERIFY \<Rightarrow> verify_echo (b # tl0) [e] 1
              | TALKER_ECHO_VERIFY_COM \<Rightarrow> verify_echo_com (b # tl0) [e] 1
              | TALKER_ECHO_IGNORE \<Rightarrow> Inr ()) = Inr ()"
    using policy_check_ok[of "[e]" 1 "b # tl0" pol] echo by simp
  have "tbug11_txrx_chunk P (stream_port f) (b # tl0) 1 pol ([e] @ rest, lg) =
          Some (Inr [e], (rest, lg @ (e0 # evs)))"
    using tbug11_txrx_step[OF zero_less_one c wp, of pol lg] rx chk
    by (simp add: e0_def tbug11_txrx_0)
  moreover have "written (e0 # evs) = [b]" using w by (simp add: e0_def)
  ultimately show "\<exists>a evs. tbug11_txrx_chunk P (stream_port f) (b # tl0) 1 pol ([e] @ rest, lg) =
      Some (Inr a, (rest, lg @ evs)) \<and> written evs = [b]"
    by blast
qed

lemma answered_tbug11_command:
  assumes Bt: "1 \<le> serial_txbuf_size P" and Br: "1 \<le> serial_rxbuf_size P"
  shows "answered (tbug11_command P (stream_port f) cmd len a) [NOT cmd] [cmd, len, addr_hi a, addr_lo a]"
proof -
  have 1: "answered (tbug11_txrx_chunk P (stream_port f) (cmd # []) 1 TALKER_ECHO_VERIFY_COM) [NOT cmd] [cmd]"
    by (rule answered_txrx_one[OF Bt Br]) (simp add: echo_ok_def)
  have 2: "answered (tx_chunk P (stream_port f) [len, addr_hi a, addr_lo a] 3) []
             (take 3 [len, addr_hi a, addr_lo a])"
    by (rule answered_tx_chunk[OF Bt]) simp
  have "answered (tbug11_command P (stream_port f) cmd len a) ([NOT cmd] @ [])
          ([cmd] @ take 3 [len, addr_hi a, addr_lo a])"
    unfolding tbug11_command_def by (rule answered_bind[OF 1]) (rule 2)
  then show ?thesis by simp
qed

lemma answered_writemem_byte:
  assumes Bt: "1 \<le> serial_txbuf_size P" and Br: "1 \<le> serial_rxbuf_size P"
  shows "answered (writemem_byte P (stream_port f) a v) (poke_echo v) (poke a v)"
proof -
  have 1: "answered (tbug11_command P (stream_port f) TBUG11_TALKER_WRITE_CMD 1 a) [NOT 0x41]
             [0x41, 1, addr_hi a, addr_lo a]"
    using answered_tbug11_command[OF Bt Br, of f TBUG11_TALKER_WRITE_CMD 1 a]
    by (simp add: TBUG11_TALKER_WRITE_CMD_def)
  have 2: "answered (tbug11_txrx_chunk P (stream_port f) (v # [addr_hi a, addr_lo a]) 1 TALKER_ECHO_VERIFY)
             [v] [v]"
    by (rule answered_txrx_one[OF Bt Br]) (simp add: echo_ok_def)
  have 3: "answered (bind_io (tbug11_txrx_chunk P (stream_port f) [v, addr_hi a, addr_lo a] 1 TALKER_ECHO_VERIFY)
      (\<lambda>_. return_io ())) ([v] @ []) ([v] @ [])"
    by (rule answered_bind[OF 2]) (rule answered_return)
  have "answered (writemem_byte P (stream_port f) a v) ([NOT 0x41] @ [v] @ [])
          ([0x41, 1, addr_hi a, addr_lo a] @ [v] @ [])"
    unfolding writemem_byte_def by (rule answered_bind[OF 1]) (rule 3)
  then show ?thesis by (simp add: poke_def poke_echo_def)
qed

lemma answered_four:
  assumes "answered m1 e1 x1" "answered m2 e2 x2" "answered m3 e3 x3" "answered m4 e4 x4"
  shows "answered (bind_io m1 (\<lambda>_. bind_io m2 (\<lambda>_. bind_io m3 (\<lambda>_. m4))))
           (e1 @ e2 @ e3 @ e4) (x1 @ x2 @ x3 @ x4)"
proof -
  have "answered (bind_io m3 (\<lambda>_. m4)) (e3 @ e4) (x3 @ x4)"
    by (rule answered_bind[OF assms(3)]) (rule assms(4))
  then have "answered (bind_io m2 (\<lambda>_. bind_io m3 (\<lambda>_. m4))) (e2 @ e3 @ e4) (x2 @ x3 @ x4)"
    by (intro answered_bind[OF assms(2)])
  then show ?thesis
    by (intro answered_bind[OF assms(1)])
qed

lemma answered_ee_byte:
  assumes Bt: "1 \<le> serial_txbuf_size P" and Br: "1 \<le> serial_rxbuf_size P"
    and rest: "\<And>u. answered (rest_m u) es xs"
  shows "answered
    (bind_io (if a = HC11_CONFIG_ADDR then eeprom_bulk_erase P (stream_port f) a v
              else eeprom_byte_erase P (stream_port f) a v)
       (\<lambda>_. bind_io (eeprom_prog_byte P (stream_port f) a v) rest_m))
    (ee_byte_echoes a v @ es) (ee_byte_sequence a v @ xs)"
proof -
  note W = answered_writemem_byte[OF Bt Br]
  have bulk: "answered (eeprom_bulk_erase P (stream_port f) a v)
      (poke_echo 0x06 @ poke_echo v @ poke_echo 0x07 @ poke_echo 0x00)
      (poke 0x103B 0x06 @ poke a v @ poke 0x103B 0x07 @ poke 0x103B 0x00)"
    unfolding eeprom_bulk_erase_def by (rule answered_four) (rule W)+
  have byt: "answered (eeprom_byte_erase P (stream_port f) a v)
      (poke_echo 0x16 @ poke_echo v @ poke_echo 0x17 @ poke_echo 0x00)
      (poke 0x103B 0x16 @ poke a v @ poke 0x103B 0x17 @ poke 0x103B 0x00)"
    unfolding eeprom_byte_erase_def by (rule answered_four) (rule W)+
  have prog: "answered (eeprom_prog_byte P (stream_port f) a v)
      (poke_echo 0x02 @ poke_echo v @ poke_echo 0x03 @ poke_echo 0x00)
      (poke 0x103B 0x02 @ poke a v @ poke 0x103B 0x03 @ poke 0x103B 0x00)"
    unfolding eeprom_prog_byte_def by (rule answered_four) (rule W)+
  have erase: "answered (if a = HC11_CONFIG_ADDR then eeprom_bulk_erase P (stream_port f) a v
                         else eeprom_byte_erase P (stream_port f) a v)
      (if a = 0x103F then poke_echo 0x06 @ poke_echo v @ poke_echo 0x07 @ poke_echo 0x00
       else poke_echo 0x16 @ poke_echo v @ poke_echo 0x17 @ poke_echo 0x00)
      (if a = 0x103F then poke 0x103B 0x06 @ poke a v @ poke 0x103B 0x07 @ poke 0x103B 0x00
       else poke 0x103B 0x16 @ poke a v @ poke 0x103B 0x17 @ poke 0x103B 0x00)"
    using bulk byt by (cases "a = 0x103F") (simp_all add: HC11_CONFIG_ADDR_def)
  have "answered (bind_io (eeprom_prog_byte P (stream_port f) a v) rest_m)
      ((poke_echo 0x02 @ poke_echo v @ poke_echo 0x03 @ poke_echo 0x00) @ es)
      ((poke 0x103B 0x02 @ poke a v @ poke 0x103B 0x03 @ poke 0x103B 0x00) @ xs)"
    by (rule answered_bind[OF prog]) (rule rest)
  then have "answered
    (bind_io (if a = HC11_CONFIG_ADDR then eeprom_bulk_erase P (stream_port f) a v
              else eeprom_byte_erase P (stream_port f) a v)
       (\<lambda>_. bind_io (eeprom_prog_byte P (stream_port f) a v) rest_m))
    ((if a = 0x103F then poke_echo 0x06 @ poke_echo v @ poke_echo 0x07 @ poke_echo 0x00
       else poke_echo 0x16 @ poke_echo v @ poke_echo 0x17 @ poke_echo 0x00) @
     ((poke_echo 0x02 @ poke_echo v @ poke_echo 0x03 @ poke_echo 0x00) @ es))
    ((if a = 0x103F then poke 0x103B 0x06 @ poke a v @ poke 0x103B 0x07 @ poke 0x103B 0x00
       else poke 0x103B 0x16 @ poke a v @ poke 0x103B 0x17 @ poke 0x103B 0x00) @
     ((poke 0x103B 0x02 @ poke a v @ poke 0x103B 0x03 @ poke 0x103B 0x00) @ xs))"
    by (intro answered_bind[OF erase])
  then show ?thesis by (simp add: ee_byte_sequence_def ee_byte_echoes_def)
qed

lemma answered_write_ee_bytes:
  assumes Bt: "1 \<le> serial_txbuf_size P" and Br: "1 \<le> serial_rxbuf_size P"
    and long: "unat n = 0 \<or> 2 * unat n + 6 \<le> length l"
  shows "i \<le> unat n \<Longrightarrow>
    answered (write_ee_bytes P (stream_port f) l n i (base + of_nat i))
      (concat (map (\<lambda>j. ee_byte_echoes (base + of_nat j) (record_byte l j)) [i..<unat n]))
      (concat (map (\<lambda>j. ee_byte_sequence (base + of_nat j) (record_byte l j)) [i..<unat n]))"
proof (induction "unat n - i" arbitrary: i)
  case 0
  then have "i = unat n" by simp
  then show ?case using answered_return[of "()"]
    by (simp add: write_ee_bytes.simps[of P "stream_port f" l n "unat n"])
next
  case (Suc m)
  then have lt: "i < unat n" by simp
  have up: "[i..<unat n] = i # [i + 1..<unat n]" using lt by (simp add: upt_conv_Cons)
  have False: "\<not> 2 * i + 8 > length l" using lt long by simp
  have m: "m = unat n - (i + 1)" using Suc.hyps(2) by simp
  have le: "i + 1 \<le> unat n" using lt by simp
  have ad: "base + of_nat i + 1 = base + of_nat (i + 1)" by simp
  have IH: "answered (write_ee_bytes P (stream_port f) l n (i + 1) (base + of_nat i + 1))
      (concat (map (\<lambda>j. ee_byte_echoes (base + of_nat j) (record_byte l j)) [i + 1..<unat n]))
      (concat (map (\<lambda>j. ee_byte_sequence (base + of_nat j) (record_byte l j)) [i + 1..<unat n]))"
    unfolding ad by (rule Suc.hyps(1)[OF m le])
  have st: "write_ee_bytes P (stream_port f) l n i (base + of_nat i) =
      bind_io (if base + of_nat i = HC11_CONFIG_ADDR
               then eeprom_bulk_erase P (stream_port f) (base + of_nat i) (record_byte l i)
               else eeprom_byte_erase P (stream_port f) (base + of_nat i) (record_byte l i))
        (\<lambda>_. bind_io (eeprom_prog_byte P (stream_port f) (base + of_nat i) (record_byte l i))
           (\<lambda>_. write_ee_bytes P (stream_port f) l n (i + 1) (base + of_nat i + 1)))"
    using lt False
    by (simp add: write_ee_bytes.simps[of P "stream_port f" l n i] substr_def record_byte_def Let_def)
  have "answered (write_ee_bytes P (stream_port f) l n i (base + of_nat i))
      (ee_byte_echoes (base + of_nat i) (record_byte l i) @
       concat (map (\<lambda>j. ee_byte_echoes (base + of_nat j) (record_byte l j)) [i + 1..<unat n]))
      (ee_byte_sequence (base + of_nat i) (record_byte l i) @
       concat (map (\<lambda>j. ee_byte_sequence (base + of_nat j) (record_byte l j)) [i + 1..<unat n]))"
    unfolding st
    by (rule answered_ee_byte[OF Bt Br,
          of "\<lambda>_. write_ee_bytes P (stream_port f) l n (i + 1) (base + of_nat i + 1)", OF IH])
  then show ?case unfolding up by simp
qed

lemma answered_write_ee_line:
  assumes Bt: "1 \<le> serial_txbuf_size P" and Br: "1 \<le> serial_rxbuf_size P"
    and long: "holds_data l"
  shows "answered (write_ee_line P (stream_port f) l) (ee_record_echoes l) (ee_record_sequence l)"
proof (cases "length l \<ge> 8 \<and> take 2 l = ''S1''")
  case True
  then show ?thesis
    using answered_write_ee_bytes[OF Bt Br long[unfolded holds_data_def], of 0 f "srec_addr_of l"]
    by (simp add: write_ee_line_def ee_record_sequence_def ee_record_echoes_def)
next
  case False
  then have "write_ee_line P (stream_port f) l = return_io ()" by (auto simp: write_ee_line_def)
  then show ?thesis using False answered_return[of "()"]
    by (auto simp: ee_record_sequence_def ee_record_echoes_def)
qed

lemma answered_write_ee:
  assumes Bt: "1 \<le> serial_txbuf_size P" and Br: "1 \<le> serial_rxbuf_size P"
  shows "\<forall>l\<in>set ls. holds_data l \<Longrightarrow>
    answered (write_ee P (stream_port f) ls) (concat (map ee_record_echoes ls))
      (concat (map ee_record_sequence ls))"
proof (induction ls)
  case Nil
  then show ?case using answered_return[of "()"] by simp
next
  case (Cons l ls)
  have h: "holds_data l" and hs: "\<forall>l\<in>set ls. holds_data l" using Cons.prems by simp_all
  show ?case
    using answered_bind[OF answered_write_ee_line[OF Bt Br h, of f],
            of "\<lambda>_. write_ee P (stream_port f) ls", OF Cons.IH[OF hs]]
    by simp
qed

text \<open>
  Claim C9. With chunk sizes of at least 1, \<open>write_ee\<close> returns, and the bytes it
  writes to the transport are, for each S1 record of the file and each data byte of the
  record in turn, the erase of the byte's address followed by its programming, each a
  sequence of four single-byte memory writes as \<open>ee_byte_sequence\<close> lists them: bulk
  erase (\<open>0x06\<close>, the byte, \<open>0x07\<close>, \<open>0x00\<close>) at address \<open>0x103F\<close> and byte erase
  (\<open>0x16\<close>, the byte, \<open>0x17\<close>, \<open>0x00\<close>) elsewhere, then \<open>0x02\<close>, the byte,
  \<open>0x03\<close>, \<open>0x00\<close>, the control values going to \<open>0x103B\<close>. All of them are written
  when no exception is raised, the first ones of them otherwise. And no exception is
  raised, so that all of them are written, when the lines hold the data they announce and
  the talker answers each command byte with its complement and each value with itself.
\<close>

theorem write_ee_sequence:
  "1 \<le> serial_txbuf_size P \<Longrightarrow> 1 \<le> serial_rxbuf_size P \<Longrightarrow>
   (\<exists>r d evs. write_ee P port in_file (d0, lg) = Some (r, (d, lg @ evs)) \<and>
     (\<exists>j\<le>length (concat (map ee_record_sequence in_file)).
        written evs = take j (concat (map ee_record_sequence in_file))) \<and>
     (r = Inr () \<longrightarrow> written evs = concat (map ee_record_sequence in_file))) \<and>
   ((\<forall>l\<in>set in_file. holds_data l) \<longrightarrow>
     (\<exists>evs. write_ee P (stream_port f) in_file (concat (map ee_record_echoes in_file) @ rest, lg1) =
              Some (Inr (), (rest, lg1 @ evs)) \<and>
            written evs = concat (map ee_record_sequence in_file)))"
proof -
  assume Bt: "1 \<le> serial_txbuf_size P" and Br: "1 \<le> serial_rxbuf_size P"
  from transfers_write_ee[OF Bt Br, of port in_file] obtain r d evs where
    "write_ee P port in_file (d0, lg) = Some (r, (d, lg @ evs))"
    "\<exists>j\<le>length (concat (map ee_record_sequence in_file)).
        written evs = take j (concat (map ee_record_sequence in_file))"
    "(\<exists>a. r = Inr a) \<longrightarrow> written evs = concat (map ee_record_sequence in_file) \<and>
        requested evs = sum_list (map ee_record_reads in_file)"
    by (rule transfersD)
  then have first: "\<exists>r d evs. write_ee P port in_file (d0, lg) = Some (r, (d, lg @ evs)) \<and>
     (\<exists>j\<le>length (concat (map ee_record_sequence in_file)).
        written evs = take j (concat (map ee_record_sequence in_file))) \<and>
     (r = Inr () \<longrightarrow> written evs = concat (map ee_record_sequence in_file))"
    by (intro exI[of _ r] exI[of _ d] exI[of _ evs]) auto
  have second: "\<exists>evs. write_ee P (stream_port f) in_file (concat (map ee_record_echoes in_file) @ rest, lg1) =
              Some (Inr (), (rest, lg1 @ evs)) \<and>
            written evs = concat (map ee_record_sequence in_file)"
    if ok: "\<forall>l\<in>set in_file. holds_data l"
  proof -
    from answered_write_ee[OF Bt Br ok, of f] obtain a evs where
      "write_ee P (stream_port f) in_file (concat (map ee_record_echoes in_file) @ rest, lg1) =
         Some (Inr a, (rest, lg1 @ evs))"
      "written evs = concat (map ee_record_sequence in_file)"
      by (rule answeredD)
    then show ?thesis by auto
  qed
  from first second show ?thesis by blast
qed

lemmas io_eval = bind_io_def return_io_def throw_io_def try_ignore_def port_write_def port_read_def
  stream_port_def params_with_def verify_echo_def verify_echo_com_def verify_echo_from.simps
  verify_echo_com_from.simps substr_def strtoul_16_def isspace_def hex_digit_def

lemma ee_example_run:
  "map_option (\<lambda>(r, d, evs). (r, d, written evs))
     (write_ee (params_with 256 256) (stream_port False) [''S0030000FC'', ''S105103EAABB47'']
        ([0xBE, 0x16, 0xBE, 0xAA, 0xBE, 0x17, 0xBE, 0x00, 0xBE, 0x02, 0xBE, 0xAA, 0xBE, 0x03, 0xBE, 0x00,
          0xBE, 0x06, 0xBE, 0xBB, 0xBE, 0x07, 0xBE, 0x00, 0xBE, 0x02, 0xBE, 0xBB, 0xBE, 0x03, 0xBE, 0x00], []))
   = Some (Inr (), [],
       [0x41, 1, 0x10, 0x3B, 0x16] @ [0x41, 1, 0x10, 0x3E, 0xAA] @ [0x41, 1, 0x10, 0x3B, 0x17] @
       [0x41, 1, 0x10, 0x3B, 0x00] @ [0x41, 1, 0x10, 0x3B, 0x02] @ [0x41, 1, 0x10, 0x3E, 0xAA] @
       [0x41, 1, 0x10, 0x3B, 0x03] @ [0x41, 1, 0x10, 0x3B, 0x00] @
       [0x41, 1, 0x10, 0x3B, 0x06] @ [0x41, 1, 0x10, 0x3F, 0xBB] @ [0x41, 1, 0x10, 0x3B, 0x07] @
       [0x41, 1, 0x10, 0x3B, 0x00] @ [0x41, 1, 0x10, 0x3B, 0x02] @ [0x41, 1, 0x10, 0x3F, 0xBB] @
       [0x41, 1, 0x10, 0x3B, 0x03] @ [0x41, 1, 0x10, 0x3B, 0x00])"
  by code_simp

section \<open>The command handshake\<close>

lemma tru11_txrx_0: "tru11_txrx_chunk P port tx 0 b w = Some (Inr [], w)"
  by (subst tru11_txrx_chunk.simps) simp

text \<open>The two \<open>txrx_chunk\<close> are the same loop; \<open>true\<close> is the policy \<open>TALKER_ECHO_VERIFY\<close>.\<close>

lemma tru11_txrx_is_tbug11:
  assumes Bt: "1 \<le> serial_txbuf_size P"
  shows "tru11_txrx_chunk P port tx N b w =
     tbug11_txrx_chunk P port tx N (if b then TALKER_ECHO_VERIFY else TALKER_ECHO_IGNORE) w"
proof (induction N arbitrary: tx w rule: less_induct)
  case (less N)
  show ?case
  proof (cases "N = 0")
    case True
    then show ?thesis by (simp add: tru11_txrx_0 tbug11_txrx_0)
  next
    case False
    define c where "c = (if N > serial_txbuf_size P then serial_txbuf_size P else N)"
    have cpos: "0 < c" and cle: "c \<le> N" using False Bt by (auto simp: c_def)
    have lt: "N - c < N" using cpos cle by simp
    have IH: "tru11_txrx_chunk P port (drop c tx) (N - c) b =
       tbug11_txrx_chunk P port (drop c tx) (N - c) (if b then TALKER_ECHO_VERIFY else TALKER_ECHO_IGNORE)"
      using less.IH[OF lt] by (intro ext)
    have pol: "(if b then verify_echo tx rs c else Inr ()) =
        (case (if b then TALKER_ECHO_VERIFY else TALKER_ECHO_IGNORE) of
           TALKER_ECHO_VERIFY \<Rightarrow> verify_echo tx rs c
         | TALKER_ECHO_VERIFY_COM \<Rightarrow> verify_echo_com tx rs c
         | TALKER_ECHO_IGNORE \<Rightarrow> Inr ())" for rs
      by simp
    show ?thesis
      apply (subst tru11_txrx_chunk.simps)
      apply (subst tbug11_txrx_chunk.simps)
      apply (simp only: c_def[symmetric] Let_def IH pol)
      done
  qed
qed

lemma tbug11_txrx_one:
  assumes Bt: "1 \<le> serial_txbuf_size P" and Br: "1 \<le> serial_rxbuf_size P"
    and wp: "write_port port d0 [b] = (res, d1)" and rp: "read_port port d1 1 = (rr, d2)"
  shows "tbug11_txrx_chunk P port [b] 1 pol (d0, lg) =
    (case res of
       None \<Rightarrow> Some (Inl SERIAL_COM_EXCEPTION, (d1, lg @ [WRITE_PORT [b] res]))
     | Some x \<Rightarrow>
         if x \<noteq> 1 then Some (Inl (APP_ERROR_TX_FAIL 1 x), (d1, lg @ [WRITE_PORT [b] res]))
         else (case rr of
                 None \<Rightarrow> Some (Inl SERIAL_COM_EXCEPTION,
                            (d2, lg @ [WRITE_PORT [b] res, READ_PORT 1 rr]))
               | Some bs \<Rightarrow>
                   if length bs \<noteq> 1
                   then Some (Inl (APP_ERROR_RX_FAIL 1 (length bs)),
                              (d2, lg @ [WRITE_PORT [b] res, READ_PORT 1 rr]))
                   else if echo_ok pol [b] bs
                   then Some (Inr bs, (d2, lg @ [WRITE_PORT [b] res, READ_PORT 1 rr]))
                   else Some (Inl (APP_ERROR_ECHO b (case pol of TALKER_ECHO_VERIFY_COM \<Rightarrow> NOT (hd bs)
                                                     | _ \<Rightarrow> hd bs)),
                              (d2, lg @ [WRITE_PORT [b] res, READ_PORT 1 rr]))))"
proof -
  have c1: "(1::nat) = (if 1 > serial_txbuf_size P then serial_txbuf_size P else 1)" using Bt by simp
  have c2: "(1::nat) = (if 1 > serial_rxbuf_size P then serial_rxbuf_size P else 1)" using Br by simp
  have wp': "write_port port d0 (take 1 [b]) = (res, d1)" using wp by simp
  note s1 = tbug11_txrx_step[OF zero_less_one c1 wp', of pol lg]
  note s2 = rx_chunk_step[OF zero_less_one c2 rp, of "lg @ [WRITE_PORT (take 1 [b]) res]"]
  have chk: "(case pol of
                TALKER_ECHO_VERIFY \<Rightarrow> verify_echo [b] [y] 1
              | TALKER_ECHO_VERIFY_COM \<Rightarrow> verify_echo_com [b] [y] 1
              | TALKER_ECHO_IGNORE \<Rightarrow> Inr ()) =
      (if echo_ok pol [b] [y] then Inr ()
       else Inl (APP_ERROR_ECHO b (case pol of TALKER_ECHO_VERIFY_COM \<Rightarrow> NOT y | _ \<Rightarrow> y)))" for y
    by (cases pol)
       (auto simp: echo_ok_def verify_echo_def verify_echo_com_def verify_echo_from.simps
          verify_echo_com_from.simps)
  show ?thesis
  proof (cases res)
    case None
    then show ?thesis using s1 by simp
  next
    case (Some x)
    show ?thesis
    proof (cases "x = 1")
      case False
      then show ?thesis using s1 Some by simp
    next
      case True
      show ?thesis
      proof (cases rr)
        case None
        then show ?thesis using s1 s2 Some True by simp
      next
        case rs: (Some bs)
        show ?thesis
        proof (cases "length bs = 1")
          case False
          then show ?thesis using s1 s2 Some True rs by simp
        next
          case l: True
          then obtain y where y: "bs = [y]" by (cases bs) auto
          show ?thesis using s1 s2 Some True rs y chk[of y]
            by (cases pol) (simp_all add: rx_chunk_0 tbug11_txrx_0 echo_ok_def)
        qed
      qed
    qed
  qed
qed

lemma command_shape:
  assumes Bt: "1 \<le> serial_txbuf_size P" and Br: "1 \<le> serial_rxbuf_size P"
  shows "\<exists>r d res rest.
     bind_io (tbug11_txrx_chunk P port [cmd] 1 pol)
       (\<lambda>_. tx_chunk P port [len, addr_hi a, addr_lo a] 3) (d0, lg) =
       Some (r, (d, lg @ WRITE_PORT [cmd] res # rest)) \<and>
     (rest = [] \<or> (\<exists>rr rest'. rest = READ_PORT 1 rr # rest' \<and>
        (rest' = [] \<or> (\<exists>y. rr = Some [y] \<and> echo_ok pol [cmd] [y])) \<and> requested rest' = 0 \<and>
        (\<exists>j\<le>3. written rest' = take j [len, addr_hi a, addr_lo a]))) \<and>
     (r = Inr () \<longrightarrow> (\<exists>y rest'. rest = READ_PORT 1 (Some [y]) # rest' \<and> echo_ok pol [cmd] [y] \<and>
        written rest' = [len, addr_hi a, addr_lo a]))"
proof -
  obtain res d1 where wp: "write_port port d0 [cmd] = (res, d1)" by (cases "write_port port d0 [cmd]")
  obtain rr d2 where rp: "read_port port d1 1 = (rr, d2)" by (cases "read_port port d1 1")
  note one = tbug11_txrx_one[OF Bt Br wp rp, of pol lg]
  let ?m = "bind_io (tbug11_txrx_chunk P port [cmd] 1 pol)
       (\<lambda>_. tx_chunk P port [len, addr_hi a, addr_lo a] 3)"
  let ?W = "WRITE_PORT [cmd] res" and ?R = "READ_PORT 1 rr"
  have early: ?thesis if "tbug11_txrx_chunk P port [cmd] 1 pol (d0, lg) = Some (Inl e, (d1, lg @ [?W]))" for e
  proof -
    have "?m (d0, lg) = Some (Inl e, (d1, lg @ ?W # []))" using that by (simp add: bind_io_def)
    then show ?thesis by blast
  qed
  have mid: ?thesis if "tbug11_txrx_chunk P port [cmd] 1 pol (d0, lg) = Some (Inl e, (d2, lg @ [?W, ?R]))" for e
  proof -
    have "?m (d0, lg) = Some (Inl e, (d2, lg @ ?W # [?R]))" using that by (simp add: bind_io_def)
    moreover have "written [] = take 0 [len, addr_hi a, addr_lo a]" by simp
    ultimately show ?thesis
      by (intro exI[of _ "Inl e"] exI[of _ d2] exI[of _ res] exI[of _ "[?R]"]) auto
  qed
  show ?thesis
  proof (cases res)
    case None
    then show ?thesis using one by (intro early) simp
  next
    case (Some x)
    show ?thesis
    proof (cases "x = 1")
      case False
      then show ?thesis using one Some by (intro early) simp
    next
      case True
      show ?thesis
      proof (cases rr)
        case None
        then show ?thesis using one Some True by (intro mid) simp
      next
        case rs: (Some bs)
        show ?thesis
        proof (cases "length bs = 1")
          case False
          then show ?thesis using one Some True rs by (intro mid) simp
        next
          case l: True
          then obtain y where y: "bs = [y]" by (cases bs) auto
          show ?thesis
          proof (cases "echo_ok pol [cmd] [y]")
            case False
            then show ?thesis using one Some True rs y by (intro mid) simp
          next
            case ok: True
            have t1: "tbug11_txrx_chunk P port [cmd] 1 pol (d0, lg) = Some (Inr bs, (d2, lg @ [?W, ?R]))"
              using one Some True rs y ok by simp
            have "transfers (tx_chunk P port [len, addr_hi a, addr_lo a] 3)
                (take 3 [len, addr_hi a, addr_lo a]) 0"
              by (rule transfers_tx_chunk[OF Bt]) simp
            then obtain r d evs where
              t2: "tx_chunk P port [len, addr_hi a, addr_lo a] 3 (d2, lg @ [?W, ?R]) =
                    Some (r, (d, (lg @ [?W, ?R]) @ evs))"
              and pj: "\<exists>j\<le>length (take 3 [len, addr_hi a, addr_lo a]).
                    written evs = take j (take 3 [len, addr_hi a, addr_lo a])"
              and pk: "requested evs \<le> 0"
              and po: "(\<exists>u. r = Inr u) \<longrightarrow> written evs = take 3 [len, addr_hi a, addr_lo a] \<and>
                    requested evs = 0"
              by (rule transfersD)
            have m: "?m (d0, lg) = Some (r, (d, lg @ ?W # (?R # evs)))"
              using t1 t2 by (simp add: bind_io_def)
            have l3: "length [len, addr_hi a, addr_lo a] = 3"
              and k3: "take 3 [len, addr_hi a, addr_lo a] = [len, addr_hi a, addr_lo a]" by simp_all
            have a: "\<exists>j\<le>3. written evs = take j [len, addr_hi a, addr_lo a]"
              using pj unfolding k3 l3 .
            have b: "r = Inr () \<longrightarrow> written evs = [len, addr_hi a, addr_lo a]" using po by simp
            have k: "requested evs = 0" using pk by simp
            show ?thesis using m a b k rs y ok
              by (intro exI[of _ r] exI[of _ d] exI[of _ res] exI[of _ "?R # evs"]) auto
          qed
        qed
      qed
    qed
  qed
qed

text \<open>
  Claim C1, as the code has it. Every memory operation sends its command with the lines
  modelled by \<open>tbug11_command\<close> and \<open>tru11_command\<close>. With chunk sizes of at least 1
  both return, and what they do starts with the write of the command byte alone; what
  follows, if anything, is the read of one byte; anything after that read happens only
  when the byte read is the complement of the command byte in TBug11, and the command byte
  itself in Tru11, and consists of writes of the first ones of the three parameter bytes
  (no read); on return without exception the three parameter bytes are written.
\<close>

theorem command_echo_policy:
  "1 \<le> serial_txbuf_size P \<Longrightarrow> 1 \<le> serial_rxbuf_size P \<Longrightarrow>
   (\<exists>r d res rest.
      tbug11_command P port cmd len a (d0, lg) = Some (r, (d, lg @ WRITE_PORT [cmd] res # rest)) \<and>
      (rest = [] \<or> (\<exists>rr rest'. rest = READ_PORT 1 rr # rest' \<and>
         (rest' = [] \<or> rr = Some [NOT cmd]) \<and> requested rest' = 0 \<and>
         (\<exists>j\<le>3. written rest' = take j [len, addr_hi a, addr_lo a]))) \<and>
      (r = Inr () \<longrightarrow> (\<exists>rest'. rest = READ_PORT 1 (Some [NOT cmd]) # rest' \<and>
         written rest' = [len, addr_hi a, addr_lo a]))) \<and>
   (\<exists>r d res rest.
      tru11_command P port cmd len a (d0, lg) = Some (r, (d, lg @ WRITE_PORT [cmd] res # rest)) \<and>
      (rest = [] \<or> (\<exists>rr rest'. rest = READ_PORT 1 rr # rest' \<and>
         (rest' = [] \<or> rr = Some [cmd]) \<and> requested rest' = 0 \<and>
         (\<exists>j\<le>3. written rest' = take j [len, addr_hi a, addr_lo a]))) \<and>
      (r = Inr () \<longrightarrow> (\<exists>rest'. rest = READ_PORT 1 (Some [cmd]) # rest' \<and>
         written rest' = [len, addr_hi a, addr_lo a])))"
proof -
  assume Bt: "1 \<le> serial_txbuf_size P" and Br: "1 \<le> serial_rxbuf_size P"
  have tb: "tbug11_command P port cmd len a =
      bind_io (tbug11_txrx_chunk P port [cmd] 1 TALKER_ECHO_VERIFY_COM)
        (\<lambda>_. tx_chunk P port [len, addr_hi a, addr_lo a] 3)"
    by (simp add: tbug11_command_def)
  have "tru11_txrx_chunk P port [cmd] 1 True = tbug11_txrx_chunk P port [cmd] 1 TALKER_ECHO_VERIFY"
    using tru11_txrx_is_tbug11[OF Bt, of port "[cmd]" 1 True] by (intro ext) simp
  then have tr: "tru11_command P port cmd len a =
      bind_io (tbug11_txrx_chunk P port [cmd] 1 TALKER_ECHO_VERIFY)
        (\<lambda>_. tx_chunk P port [len, addr_hi a, addr_lo a] 3)"
    by (simp add: tru11_command_def)
  have e1: "echo_ok TALKER_ECHO_VERIFY_COM [cmd] [y] \<longleftrightarrow> y = NOT cmd" for y
    by (simp add: echo_ok_def)
  have e2: "echo_ok TALKER_ECHO_VERIFY [cmd] [y] \<longleftrightarrow> y = cmd" for y
    by (simp add: echo_ok_def)
  from command_shape[OF Bt Br, of port cmd TALKER_ECHO_VERIFY_COM len a d0 lg]
  have A: "\<exists>r d res rest.
      tbug11_command P port cmd len a (d0, lg) = Some (r, (d, lg @ WRITE_PORT [cmd] res # rest)) \<and>
      (rest = [] \<or> (\<exists>rr rest'. rest = READ_PORT 1 rr # rest' \<and>
         (rest' = [] \<or> rr = Some [NOT cmd]) \<and> requested rest' = 0 \<and>
         (\<exists>j\<le>3. written rest' = take j [len, addr_hi a, addr_lo a]))) \<and>
      (r = Inr () \<longrightarrow> (\<exists>rest'. rest = READ_PORT 1 (Some [NOT cmd]) # rest' \<and>
         written rest' = [len, addr_hi a, addr_lo a]))"
    unfolding tb e1 by simp
  from command_shape[OF Bt Br, of port cmd TALKER_ECHO_VERIFY len a d0 lg]
  have B: "\<exists>r d res rest.
      tru11_command P port cmd len a (d0, lg) = Some (r, (d, lg @ WRITE_PORT [cmd] res # rest)) \<and>
      (rest = [] \<or> (\<exists>rr rest'. rest = READ_PORT 1 rr # rest' \<and>
         (rest' = [] \<or> rr = Some [cmd]) \<and> requested rest' = 0 \<and>
         (\<exists>j\<le>3. written rest' = take j [len, addr_hi a, addr_lo a]))) \<and>
      (r = Inr () \<longrightarrow> (\<exists>rest'. rest = READ_PORT 1 (Some [cmd]) # rest' \<and>
         written rest' = [len, addr_hi a, addr_lo a]))"
    unfolding tr e2 by simp
  show ?thesis using A B by (rule conjI)
qed

lemmas chunk_eval = tx_chunk.simps rx_chunk.simps tru11_txrx_chunk.simps tbug11_txrx_chunk.simps

text \<open>
  A talker that answers the read command \<open>0x01\<close> with \<open>0xFE\<close> is accepted by TBug11
  and one that answers \<open>0x01\<close> is accepted by Tru11; the parameters follow.
\<close>

theorem command_echo_policy_witness:
  "1 \<le> serial_txbuf_size (params_with 256 256) \<and> 1 \<le> serial_rxbuf_size (params_with 256 256) \<and>
   tbug11_command (params_with 256 256) (stream_port False) 0x01 16 0x1234 ([0xFE], []) =
     Some (Inr (), ([], [] @ WRITE_PORT [0x01] (Some 1) #
        [READ_PORT 1 (Some [NOT 0x01]), WRITE_PORT [16, 0x12, 0x34] (Some 3)])) \<and>
   tru11_command (params_with 256 256) (stream_port False) 0x01 16 0x1234 ([0x01], []) =
     Some (Inr (), ([], [] @ WRITE_PORT [0x01] (Some 1) #
        [READ_PORT 1 (Some [0x01]), WRITE_PORT [16, 0x12, 0x34] (Some 3)]))"
proof -
  have h: "1 \<le> serial_txbuf_size (params_with 256 256)" "1 \<le> serial_rxbuf_size (params_with 256 256)"
    by (simp_all add: params_with_def)
  have a: "tbug11_command (params_with 256 256) (stream_port False) 0x01 16 0x1234 ([0xFE], []) =
     Some (Inr (), ([], [] @ WRITE_PORT [0x01] (Some 1) #
        [READ_PORT 1 (Some [NOT 0x01]), WRITE_PORT [16, 0x12, 0x34] (Some 3)]))"
    by (simp add: tbug11_command_def addr_hi_def addr_lo_def chunk_eval io_eval)
  have b: "tru11_command (params_with 256 256) (stream_port False) 0x01 16 0x1234 ([0x01], []) =
     Some (Inr (), ([], [] @ WRITE_PORT [0x01] (Some 1) #
        [READ_PORT 1 (Some [0x01]), WRITE_PORT [16, 0x12, 0x34] (Some 3)]))"
    by (simp add: tru11_command_def addr_hi_def addr_lo_def chunk_eval io_eval)
  from command_echo_policy [OF h, of "stream_port False" "0x01" 16 "0x1234" "[0xFE]" "[]"] a b h
  show ?thesis by blast
qed

text \<open>
  Claim C1 as it was stated fails for Tru11: when the talker answers the read command
  \<open>0x01\<close> with its complement \<open>0xFE\<close>, Tru11 raises the echo error and sends no
  parameter.
\<close>

theorem tru11_command_counterexample:
  "tru11_command (params_with 256 256) (stream_port False) 0x01 16 0x1234 ([NOT 0x01], []) =
     Some (Inl (APP_ERROR_ECHO 0x01 0xFE),
           ([], [WRITE_PORT [0x01] (Some 1), READ_PORT 1 (Some [0xFE])]))"
  by (simp add: tru11_command_def addr_hi_def addr_lo_def chunk_eval io_eval)

text \<open>
  A file with one record of two data bytes, \<open>0xAA\<close> for \<open>0x103E\<close> and \<open>0xBB\<close> for the
  CONFIG register at \<open>0x103F\<close>, and a talker that answers every command with its
  complement and every value with itself: the first byte is erased alone and programmed,
  the second is bulk erased and programmed.
\<close>

theorem write_ee_sequence_witness:
  "1 \<le> serial_txbuf_size (params_with 256 256) \<and> 1 \<le> serial_rxbuf_size (params_with 256 256) \<and>
   holds_data ''S0030000FC'' \<and> holds_data ''S105103EAABB47'' \<and>
   (\<exists>evs. write_ee (params_with 256 256) (stream_port False) [''S0030000FC'', ''S105103EAABB47'']
       ([0xBE, 0x16, 0xBE, 0xAA, 0xBE, 0x17, 0xBE, 0x00, 0xBE, 0x02, 0xBE, 0xAA, 0xBE, 0x03, 0xBE, 0x00,
         0xBE, 0x06, 0xBE, 0xBB, 0xBE, 0x07, 0xBE, 0x00, 0xBE, 0x02, 0xBE, 0xBB, 0xBE, 0x03, 0xBE, 0x00], [])
       = Some (Inr (), ([], [] @ evs)) \<and>
     written evs =
       [0x41, 1, 0x10, 0x3B, 0x16] @ [0x41, 1, 0x10, 0x3E, 0xAA] @ [0x41, 1, 0x10, 0x3B, 0x17] @
       [0x41, 1, 0x10, 0x3B, 0x00] @ [0x41, 1, 0x10, 0x3B, 0x02] @ [0x41, 1, 0x10, 0x3E, 0xAA] @
       [0x41, 1, 0x10, 0x3B, 0x03] @ [0x41, 1, 0x10, 0x3B, 0x00] @
       [0x41, 1, 0x10, 0x3B, 0x06] @ [0x41, 1, 0x10, 0x3F, 0xBB] @ [0x41, 1, 0x10, 0x3B, 0x07] @
       [0x41, 1, 0x10, 0x3B, 0x00] @ [0x41, 1, 0x10, 0x3B, 0x02] @ [0x41, 1, 0x10, 0x3F, 0xBB] @
       [0x41, 1, 0x10, 0x3B, 0x03] @ [0x41, 1, 0x10, 0x3B, 0x00])"
proof -
  let ?P = "params_with 256 256"
  let ?f = "[''S0030000FC'', ''S105103EAABB47'']"
  have h: "1 \<le> serial_txbuf_size ?P" "1 \<le> serial_rxbuf_size ?P"
    by (simp_all add: params_with_def)
  have d: "holds_data ''S0030000FC''" "holds_data ''S105103EAABB47''"
    by code_simp+
  then have ok: "\<forall>l\<in>set ?f. holds_data l" by simp
  have e: "concat (map ee_record_echoes ?f) @ [] =
       [0xBE, 0x16, 0xBE, 0xAA, 0xBE, 0x17, 0xBE, 0x00, 0xBE, 0x02, 0xBE, 0xAA, 0xBE, 0x03, 0xBE, 0x00,
        0xBE, 0x06, 0xBE, 0xBB, 0xBE, 0x07, 0xBE, 0x00, 0xBE, 0x02, 0xBE, 0xBB, 0xBE, 0x03, 0xBE, 0x00]"
    by code_simp
  have x: "concat (map ee_record_sequence ?f) =
       [0x41, 1, 0x10, 0x3B, 0x16] @ [0x41, 1, 0x10, 0x3E, 0xAA] @ [0x41, 1, 0x10, 0x3B, 0x17] @
       [0x41, 1, 0x10, 0x3B, 0x00] @ [0x41, 1, 0x10, 0x3B, 0x02] @ [0x41, 1, 0x10, 0x3E, 0xAA] @
       [0x41, 1, 0x10, 0x3B, 0x03] @ [0x41, 1, 0x10, 0x3B, 0x00] @
       [0x41, 1, 0x10, 0x3B, 0x06] @ [0x41, 1, 0x10, 0x3F, 0xBB] @ [0x41, 1, 0x10, 0x3B, 0x07] @
       [0x41, 1, 0x10, 0x3B, 0x00] @ [0x41, 1, 0x10, 0x3B, 0x02] @ [0x41, 1, 0x10, 0x3F, 0xBB] @
       [0x41, 1, 0x10, 0x3B, 0x03] @ [0x41, 1, 0x10, 0x3B, 0x00]"
    by code_simp
  note t = write_ee_sequence [OF h, where in_file = ?f and f = False and rest = "[]" and ?lg1.0 = "[]"
      and port = "stream_port False" and ?d0.0 = "[]" and lg = "[]"]
  from conjunct2[OF t] ok
  have "\<exists>evs. write_ee ?P (stream_port False) ?f (concat (map ee_record_echoes ?f) @ [], []) =
              Some (Inr (), ([], [] @ evs)) \<and>
            written evs = concat (map ee_record_sequence ?f)"
    by (rule mp)
  then have "\<exists>evs. write_ee ?P (stream_port False) ?f
       ([0xBE, 0x16, 0xBE, 0xAA, 0xBE, 0x17, 0xBE, 0x00, 0xBE, 0x02, 0xBE, 0xAA, 0xBE, 0x03, 0xBE, 0x00,
         0xBE, 0x06, 0xBE, 0xBB, 0xBE, 0x07, 0xBE, 0x00, 0xBE, 0x02, 0xBE, 0xBB, 0xBE, 0x03, 0xBE, 0x00], [])
       = Some (Inr (), ([], [] @ evs)) \<and>
     written evs =
       [0x41, 1, 0x10, 0x3B, 0x16] @ [0x41, 1, 0x10, 0x3E, 0xAA] @ [0x41, 1, 0x10, 0x3B, 0x17] @
       [0x41, 1, 0x10, 0x3B, 0x00] @ [0x41, 1, 0x10, 0x3B, 0x02] @ [0x41, 1, 0x10, 0x3E, 0xAA] @
       [0x41, 1, 0x10, 0x3B, 0x03] @ [0x41, 1, 0x10, 0x3B, 0x00] @
       [0x41, 1, 0x10, 0x3B, 0x06] @ [0x41, 1, 0x10, 0x3F, 0xBB] @ [0x41, 1, 0x10, 0x3B, 0x07] @
       [0x41, 1, 0x10, 0x3B, 0x00] @ [0x41, 1, 0x10, 0x3B, 0x02] @ [0x41, 1, 0x10, 0x3F, 0xBB] @
       [0x41, 1, 0x10, 0x3B, 0x03] @ [0x41, 1, 0x10, 0x3B, 0x00]"
    unfolding e x .
  with h d show ?thesis by blast
qed

section \<open>Reading memory to a file: the port calls write no line\<close>

lemma files_Nil [simp]: "files [] = []"
  by (simp add: files_def)

lemma files_append [simp]: "files (xs @ ys) = files xs @ files ys"
  by (simp add: files_def)

lemma files_Cons_write [simp]: "files (WRITE_PORT bs r # evs) = files evs"
  by (simp add: files_def)

lemma files_Cons_read [simp]: "files (READ_PORT n r # evs) = files evs"
  by (simp add: files_def)

lemma files_Cons_file [simp]: "files (WRITE_FILE l # evs) = l # files evs"
  by (simp add: files_def)

lemma port_ext_refl [simp]: "port_ext w w"
  by (simp add: port_ext_def)

lemma port_ext_trans: "port_ext w w1 \<Longrightarrow> port_ext w1 w2 \<Longrightarrow> port_ext w w2"
  by (auto simp: port_ext_def)

lemma port_write_ext: "port_write port bs w = (r, w1) \<Longrightarrow> port_ext w w1"
  by (auto simp: port_write_def port_ext_def split: prod.splits)

lemma port_read_ext: "port_read port n w = (r, w1) \<Longrightarrow> port_ext w w1"
  by (auto simp: port_read_def port_ext_def split: prod.splits)

lemma tx_chunk_ext: "tx_chunk P port tx N w = Some y \<Longrightarrow> port_ext w (snd y)"
proof (erule tx_chunk.raw_induct[where P = "\<lambda>P port tx N w y. port_ext w (snd y)", rotated], goal_cases)
  case (1 f P port tx N w y)
  show ?case
  proof (cases "N = 0")
    case True
    with 1(2) show ?thesis by auto
  next
    case False
    define c where "c = (if serial_txbuf_size P < N then serial_txbuf_size P else N)"
    obtain r w1 where pw: "port_write port (take c tx) w = (r, w1)"
      by (cases "port_write port (take c tx) w") auto
    have e1: "port_ext w w1" using pw by (rule port_write_ext)
    show ?thesis
    proof (cases r)
      case (Inl e)
      with 1(2) False pw have "y = (Inl e, w1)" by (simp add: c_def[symmetric] Let_def)
      with e1 show ?thesis by simp
    next
      case (Inr x)
      show ?thesis
      proof (cases "x = c")
        case False
        with 1(2) \<open>N \<noteq> 0\<close> pw Inr have "snd y = w1"
          by (auto simp add: c_def[symmetric] Let_def)
        with e1 show ?thesis by simp
      next
        case True
        with 1(2) \<open>N \<noteq> 0\<close> pw Inr have "f P port (drop c tx) (N - c) w1 = Some y"
          by (simp add: c_def[symmetric] Let_def)
        from 1(1)[OF this] e1 show ?thesis by (rule port_ext_trans[rotated])
      qed
    qed
  qed
qed

lemma rx_chunk_ext: "rx_chunk P port N w = Some y \<Longrightarrow> port_ext w (snd y)"
proof (erule rx_chunk.raw_induct[where P = "\<lambda>P port N w y. port_ext w (snd y)", rotated], goal_cases)
  case (1 f P port N w y)
  show ?case
  proof (cases "N = 0")
    case True
    with 1(2) show ?thesis by auto
  next
    case False
    define c where "c = (if serial_rxbuf_size P < N then serial_rxbuf_size P else N)"
    obtain r w1 where pw: "port_read port c w = (r, w1)"
      by (cases "port_read port c w") auto
    have e1: "port_ext w w1" using pw by (rule port_read_ext)
    show ?thesis
    proof (cases r)
      case (Inl e)
      with 1(2) False pw have "y = (Inl e, w1)" by (simp add: c_def[symmetric] Let_def)
      with e1 show ?thesis by simp
    next
      case (Inr x)
      show ?thesis
      proof (cases "length x = c")
        case False
        with 1(2) \<open>N \<noteq> 0\<close> pw Inr have "snd y = w1"
          by (auto simp add: c_def[symmetric] Let_def)
        with e1 show ?thesis by simp
      next
        case True
        with 1(2) \<open>N \<noteq> 0\<close> pw Inr obtain y1 where
          "f P port (N - c) w1 = Some y1" "snd y = snd y1"
          by (auto simp add: c_def[symmetric] Let_def Option.bind_eq_Some_conv split: prod.splits)
        with 1(1)[of P port "N - c" w1 y1] e1 show ?thesis by (auto intro: port_ext_trans)
      qed
    qed
  qed
qed

lemma tbug11_txrx_ext: "tbug11_txrx_chunk P port tx N pol w = Some y \<Longrightarrow> port_ext w (snd y)"
proof (erule tbug11_txrx_chunk.raw_induct[where P = "\<lambda>P port tx N pol w y. port_ext w (snd y)", rotated], goal_cases)
  case (1 f P port tx N pol w y)
  show ?case
  proof (cases "N = 0")
    case True
    with 1(2) show ?thesis by auto
  next
    case False
    define c where "c = (if serial_txbuf_size P < N then serial_txbuf_size P else N)"
    obtain r w1 where pw: "port_write port (take c tx) w = (r, w1)"
      by (cases "port_write port (take c tx) w") auto
    have e1: "port_ext w w1" using pw by (rule port_write_ext)
    show ?thesis
    proof (cases r)
      case (Inl e)
      with 1(2) False pw have "y = (Inl e, w1)" by (simp add: c_def[symmetric] Let_def)
      with e1 show ?thesis by simp
    next
      case (Inr x)
      show ?thesis
      proof (cases "x = c")
        case False
        with 1(2) \<open>N \<noteq> 0\<close> pw Inr have "snd y = w1"
          by (auto simp add: c_def[symmetric] Let_def)
        with e1 show ?thesis by simp
      next
        case True
        with 1(2) \<open>N \<noteq> 0\<close> pw Inr obtain r2 w2 where
          rx: "rx_chunk P port c w1 = Some (r2, w2)" and
          rest: "(case r2 of
                   Inl e \<Rightarrow> Some (Inl e, w2)
                 | Inr rs \<Rightarrow>
                     (case (case pol of
                              TALKER_ECHO_VERIFY \<Rightarrow> verify_echo tx rs c
                            | TALKER_ECHO_VERIFY_COM \<Rightarrow> verify_echo_com tx rs c
                            | TALKER_ECHO_IGNORE \<Rightarrow> Inr ()) of
                        Inl e \<Rightarrow> Some (Inl e, w2)
                      | Inr _ \<Rightarrow>
                          Option.bind (f P port (drop c tx) (N - c) pol w2)
                            (\<lambda>(r3, w3).
                               Some ((case r3 of Inl e \<Rightarrow> Inl e
                                      | Inr rest \<Rightarrow> Inr (rs @ rest)), w3)))) = Some y"
          by (auto simp add: c_def[symmetric] Let_def Option.bind_eq_Some_conv split: prod.splits)
        from rx_chunk_ext[OF rx] e1 have e2: "port_ext w w2"
          by (auto intro: port_ext_trans)
        show ?thesis
        proof (cases r2)
          case (Inl e)
          with rest have "snd y = w2" by auto
          with e2 show ?thesis by simp
        next
          case rs: (Inr rs)
          define chk where "chk = (case pol of
                              TALKER_ECHO_VERIFY \<Rightarrow> verify_echo tx rs c
                            | TALKER_ECHO_VERIFY_COM \<Rightarrow> verify_echo_com tx rs c
                            | TALKER_ECHO_IGNORE \<Rightarrow> Inr ())"
          show ?thesis
          proof (cases chk)
            case (Inl e)
            with rest rs have "snd y = w2" by (auto simp: chk_def[symmetric])
            with e2 show ?thesis by simp
          next
            case (Inr u)
            with rest rs obtain r3 w3 where
              y1: "f P port (drop c tx) (N - c) pol w2 = Some (r3, w3)" "snd y = w3"
              by (auto simp: chk_def[symmetric] Option.bind_eq_Some_conv split: prod.splits)
            from 1(1)[OF y1(1)] e2 y1(2) show ?thesis by (auto intro: port_ext_trans)
          qed
        qed
      qed
    qed
  qed
qed

lemma port_onlyI: "(\<And>w y. m w = Some y \<Longrightarrow> port_ext w (snd y)) \<Longrightarrow> port_only m"
  by (simp add: port_only_def)

lemma port_onlyD: "port_only m \<Longrightarrow> m w = Some y \<Longrightarrow> port_ext w (snd y)"
  unfolding port_only_def by blast

lemma port_only_bind:
  assumes m: "port_only m" and f: "\<And>a. port_only (f a)"
  shows "port_only (bind_io m f)"
proof (rule port_onlyI)
  fix w y
  assume b: "bind_io m f w = Some y"
  then obtain r w1 where mw: "m w = Some (r, w1)"
    by (cases "m w") (auto simp: bind_io_def)
  have e1: "port_ext w w1" using port_onlyD[OF m mw] by simp
  show "port_ext w (snd y)"
  proof (cases r)
    case (Inl e)
    with b mw have "y = (Inl e, w1)" by (simp add: bind_io_def)
    with e1 show ?thesis by simp
  next
    case (Inr a)
    with b mw have "f a w1 = Some y" by (simp add: bind_io_def)
    from port_onlyD[OF f this] e1 show ?thesis by (auto intro: port_ext_trans)
  qed
qed

lemma port_only_tx_chunk: "port_only (tx_chunk P port tx N)"
  by (rule port_onlyI) (rule tx_chunk_ext)

lemma port_only_rx_chunk: "port_only (rx_chunk P port N)"
  by (rule port_onlyI) (rule rx_chunk_ext)

lemma port_only_tbug11_txrx: "port_only (tbug11_txrx_chunk P port tx N pol)"
  by (rule port_onlyI) (rule tbug11_txrx_ext)

lemma port_only_tbug11_command: "port_only (tbug11_command P port cmd len a)"
  unfolding tbug11_command_def
  by (intro port_only_bind port_only_tbug11_txrx port_only_tx_chunk)

lemma tru11_command_eq:
  assumes Bt: "1 \<le> serial_txbuf_size P"
  shows "tru11_command P port cmd len a =
         bind_io (tbug11_txrx_chunk P port [cmd] 1 TALKER_ECHO_VERIFY)
           (\<lambda>_. tx_chunk P port [len, addr_hi a, addr_lo a] 3)"
  unfolding tru11_command_def
  by (rule ext) (simp add: bind_io_def tru11_txrx_is_tbug11[OF Bt])

lemma port_only_tru11_command:
  assumes Bt: "1 \<le> serial_txbuf_size P"
  shows "port_only (tru11_command P port cmd len a)"
  unfolding tru11_command_eq[OF Bt]
  by (intro port_only_bind port_only_tbug11_txrx port_only_tx_chunk)

lemma transfers_tru11_command:
  assumes Bt: "1 \<le> serial_txbuf_size P" and Br: "1 \<le> serial_rxbuf_size P"
  shows "transfers (tru11_command P port cmd len a) [cmd, len, addr_hi a, addr_lo a] 1"
proof -
  have a: "transfers (tbug11_txrx_chunk P port [cmd] 1 TALKER_ECHO_VERIFY) (take 1 [cmd]) 1"
    by (rule transfers_tbug11_txrx[OF Bt Br]) simp
  have b: "\<And>u. transfers (tx_chunk P port [len, addr_hi a, addr_lo a] 3)
                   (take 3 [len, addr_hi a, addr_lo a]) 0"
    by (rule transfers_tx_chunk[OF Bt]) simp
  from transfers_bind[OF a b] show ?thesis
    unfolding tru11_command_eq[OF Bt] by simp
qed

section \<open>Reading memory to a file: the running checksum\<close>

lemma unat_sum_list: "unat (sum_list (xs :: byte list)) = sum_list (map unat xs) mod 256"
proof (induction xs)
  case Nil
  show ?case by simp
next
  case (Cons x xs)
  have "unat (x + sum_list xs) = (unat x + unat (sum_list xs)) mod 256"
    by (simp add: unat_word_ariths)
  also have "\<dots> = (unat x + sum_list (map unat xs)) mod 256"
    unfolding Cons.IH by (simp add: mod_add_right_eq)
  finally show ?case by simp
qed

lemma unat_not_byte: "unat (NOT x :: byte) = 255 - unat x"
proof -
  have "NOT x = - 1 - x" by (simp add: not_eq_complement)
  moreover have "unat (- 1 - x) = unat (- 1 :: byte) - unat x"
    by (rule unat_sub) simp
  moreover have "unat (- 1 :: byte) = 255"
    by (simp add: unsigned_minus_1_eq_mask mask_eq_exp_minus_1)
  ultimately show ?thesis by simp
qed

lemma unat_add_byte: "unat (x + y :: byte) = (unat x + unat y) mod 256"
  by (simp add: unat_word_ariths)

lemma mod_complement:
  fixes T :: nat
  shows "(T + (255 - T mod 256)) mod 256 = 255"
proof -
  have "T mod 256 < 256" by simp
  then have "T + (255 - T mod 256) = (T - T mod 256) + 255"
    using mod_less_eq_dividend[of T 256] by linarith
  also have "\<dots> = 256 * (T div 256) + 255"
    by (simp add: minus_mod_eq_mult_div)
  finally show ?thesis by simp
qed

lemma srec_ok_emit:
  assumes ck: "ck = addr_hi a + addr_lo a + sum_list line"
  shows "srec_ok (S1 (unat dc + 3) a line (NOT (ck + (dc + 3))))"
proof -
  define T where "T = unat dc + 3 + unat (addr_hi a) + unat (addr_lo a) + sum_list (map unat line)"
  have "unat (ck + (dc + 3)) =
        (((unat (addr_hi a) + unat (addr_lo a)) mod 256 + sum_list (map unat line) mod 256) mod 256
                     + (unat dc + 3) mod 256) mod 256"
    unfolding ck by (simp add: unat_add_byte unat_sum_list)
  also have "\<dots> = (unat (addr_hi a) + unat (addr_lo a) + sum_list (map unat line) + (unat dc + 3)) mod 256"
    by (simp only: mod_add_eq)
  also have "\<dots> = T mod 256"
    unfolding T_def by (simp add: ac_simps)
  finally have s: "unat (ck + (dc + 3)) = T mod 256" .
  have c: "unat (NOT (ck + (dc + 3))) = 255 - T mod 256"
    by (simp add: unat_not_byte s)
  have "(T + (255 - T mod 256)) mod 256 = 255"
    by (rule mod_complement)
  with c show ?thesis
    by (simp add: T_def)
qed

lemma emits_okI:
  assumes "\<And>d0 lg. \<exists>r d evs. m (d0, lg) = Some (r, (d, lg @ evs)) \<and> list_all srec_ok (files evs) \<and>
        (\<forall>a. r = Inr a \<longrightarrow> Q a)"
  shows "emits_ok m Q"
  using assms unfolding emits_ok_def by blast

lemma emits_okD:
  assumes "emits_ok m Q"
  obtains r d evs where "m (d0, lg) = Some (r, (d, lg @ evs))"
    and "list_all srec_ok (files evs)" and "\<forall>a. r = Inr a \<longrightarrow> Q a"
  using assms unfolding emits_ok_def by blast

lemma emits_ok_return: "Q a \<Longrightarrow> emits_ok (return_io a) Q"
  by (rule emits_okI) (simp add: return_io_def)

lemma emits_ok_write_file: "srec_ok l \<Longrightarrow> emits_ok (write_file l) (\<lambda>_. True)"
  by (rule emits_okI) (simp add: write_file_def)

lemma emits_ok_bind:
  assumes m: "emits_ok m Q" and f: "\<And>a. Q a \<Longrightarrow> emits_ok (f a) R"
  shows "emits_ok (bind_io m f) R"
proof (rule emits_okI)
  fix d0 lg
  from m obtain r d evs where mw: "m (d0, lg) = Some (r, (d, lg @ evs))"
    and ok: "list_all srec_ok (files evs)" and q: "\<forall>a. r = Inr a \<longrightarrow> Q a"
    by (rule emits_okD)
  show "\<exists>r d evs. bind_io m f (d0, lg) = Some (r, (d, lg @ evs)) \<and> list_all srec_ok (files evs) \<and>
        (\<forall>a. r = Inr a \<longrightarrow> R a)"
  proof (cases r)
    case (Inl e)
    with mw have "bind_io m f (d0, lg) = Some (Inl e, (d, lg @ evs))"
      by (simp add: bind_io_def)
    with ok show ?thesis by blast
  next
    case (Inr a)
    from q Inr have "Q a" by simp
    from f[OF this] obtain r2 d2 evs2 where
      fw: "f a (d, lg @ evs) = Some (r2, (d2, (lg @ evs) @ evs2))"
      and ok2: "list_all srec_ok (files evs2)" and q2: "\<forall>b. r2 = Inr b \<longrightarrow> R b"
      by (rule emits_okD)
    from mw Inr fw have "bind_io m f (d0, lg) = Some (r2, (d2, lg @ (evs @ evs2)))"
      by (simp add: bind_io_def)
    moreover from ok ok2 have "list_all srec_ok (files (evs @ evs2))" by simp
    ultimately show ?thesis using q2 by blast
  qed
qed

lemma emits_ok_port:
  assumes t: "transfers m xs k" and p: "port_only m"
  shows "emits_ok m (\<lambda>_. True)"
proof (rule emits_okI)
  fix d0 lg
  from t obtain r d evs where mw: "m (d0, lg) = Some (r, (d, lg @ evs))"
    unfolding transfers_def by blast
  from port_onlyD[OF p mw] have "files evs = []"
    by (simp add: port_ext_def)
  with mw show "\<exists>r d evs. m (d0, lg) = Some (r, (d, lg @ evs)) \<and> list_all srec_ok (files evs) \<and>
        (\<forall>a. r = Inr a \<longrightarrow> True)"
    by force
qed

lemma emits_ok_store:
  assumes inv: "checksum_inv st"
  shows "emits_ok (readmem_store P b st) checksum_inv"
proof (cases "length (full_file_name P) > 0")
  case False
  with inv show ?thesis
    by (simp add: readmem_store_def emits_ok_return checksum_inv_def)
next
  case True
  define st1 where "st1 = st\<lparr> srec_line := srec_line st @ [b],
                        datacount := datacount st + 1,
                        checksum := checksum st + b \<rparr>"
  have inv1: "checksum st1 = addr_hi (srec_addr_str st1) + addr_lo (srec_addr_str st1) + sum_list (srec_line st1)"
    using inv by (simp add: st1_def checksum_inv_def)
  show ?thesis
  proof (cases "uint (datacount st1) = uint (3 + srec_datalen P) - 3")
    case False
    with True have e: "readmem_store P b st = return_io (st1\<lparr> addr := addr st1 + 1 \<rparr>)"
      by (simp add: readmem_store_def st1_def[symmetric] Let_def)
    have "checksum_inv (st1\<lparr> addr := addr st1 + 1 \<rparr>)"
      using inv1 by (simp add: checksum_inv_def)
    then show ?thesis unfolding e by (rule emits_ok_return)
  next
    case eq: True
    let ?l = "S1 (unat (datacount st1) + 3) (srec_addr_str st1) (srec_line st1)
                   (NOT (checksum st1 + (datacount st1 + 3)))"
    let ?st2 = "st1\<lparr> datacount := 0,
                      checksum := addr_hi (addr st1 + 1) + addr_lo (addr st1 + 1),
                      srec_line := [],
                      srec_addr_str := addr st1 + 1,
                      addr := addr st1 + 1 \<rparr>"
    from True eq have e: "readmem_store P b st = bind_io (write_file ?l) (\<lambda>_. return_io ?st2)"
      by (simp add: readmem_store_def st1_def[symmetric] Let_def)
    have l: "srec_ok ?l" using inv1 by (rule srec_ok_emit)
    have i2: "checksum_inv ?st2" by (simp add: checksum_inv_def)
    show ?thesis
      unfolding e by (rule emits_ok_bind[OF emits_ok_write_file[OF l]]) (rule emits_ok_return, rule i2)
  qed
qed

lemma emits_ok_bytes: "checksum_inv st \<Longrightarrow> emits_ok (readmem_bytes P bs st) checksum_inv"
proof (induction bs arbitrary: st)
  case Nil
  then show ?case by (simp add: emits_ok_return)
next
  case (Cons b bs)
  show ?case
    unfolding readmem_bytes.simps
    by (rule emits_ok_bind[OF emits_ok_store[OF Cons.prems]]) (rule Cons.IH)
qed

lemma emits_ok_finish:
  assumes inv: "checksum_inv st"
  shows "emits_ok (readmem_finish P st) (\<lambda>_. True)"
proof -
  have l: "srec_ok (S1 (unat (datacount st) + 3) (srec_addr_str st) (srec_line st)
                     (NOT (checksum st + (datacount st + 3))))"
    using inv unfolding checksum_inv_def by (rule srec_ok_emit)
  have a: "emits_ok (if datacount st > 0
           then write_file
                  (S1 (unat (datacount st) + 3) (srec_addr_str st) (srec_line st)
                     (NOT (checksum st + (datacount st + 3))))
           else return_io ()) (\<lambda>_. True)"
    by (simp add: emits_ok_write_file[OF l] emits_ok_return)
  show ?thesis
  proof (cases "length (full_file_name P) > 0")
    case False
    then have e: "readmem_finish P st = return_io ()"
      by (simp add: readmem_finish_def)
    show ?thesis unfolding e by (rule emits_ok_return) simp
  next
    case True
    have "emits_ok (write_file S9) (\<lambda>_. True)"
      by (rule emits_ok_write_file) simp
    with a have "emits_ok (bind_io (if datacount st > 0
           then write_file
                  (S1 (unat (datacount st) + 3) (srec_addr_str st) (srec_line st)
                     (NOT (checksum st + (datacount st + 3))))
           else return_io ()) (\<lambda>_. write_file S9)) (\<lambda>_. True)"
      by (rule emits_ok_bind)
    with True show ?thesis
      by (simp add: readmem_finish_def)
  qed
qed

lemma addr_hi_ucast: "addr_hi (ucast (f :: 32 word)) = ucast (drop_bit 8 f AND 0xff)"
  unfolding addr_hi_def
  by (rule bit_word_eqI) (auto simp: bit_simps)

lemma addr_lo_ucast: "addr_lo (ucast (f :: 32 word)) = ucast (f AND 0xff)"
  unfolding addr_lo_def
  by (rule bit_word_eqI) (auto simp: bit_simps)

lemma checksum_inv_init: "checksum_inv (readmem_init P)"
  by (simp add: checksum_inv_def readmem_init_def addr_hi_ucast addr_lo_ucast)

lemma emits_ok_tru11_loop:
  assumes Bt: "1 \<le> serial_txbuf_size P" and Br: "1 \<le> serial_rxbuf_size P"
  shows "checksum_inv st \<Longrightarrow> emits_ok (tru11_readmem_loop P port n st) checksum_inv"
proof (induction n arbitrary: st rule: less_induct)
  case (less n)
  show ?case
  proof (cases "n = 0")
    case True
    then have e: "tru11_readmem_loop P port n st = return_io st"
      by (subst tru11_readmem_loop.simps) simp
    show ?thesis unfolding e by (rule emits_ok_return) (rule less.prems)
  next
    case False
    define c where "c = (if n > 256 then 256 else n)"
    have c: "0 < c" "c \<le> n" using False by (simp_all add: c_def)
    have e: "tru11_readmem_loop P port n st =
         bind_io (tru11_command P port TALKER_READ_CMD (of_nat c) (addr st))
           (\<lambda>_. bind_io (rx_chunk P port c)
              (\<lambda>rs. bind_io (readmem_bytes P rs st)
                 (\<lambda>st'. tru11_readmem_loop P port (n - c) st')))"
      using False by (subst tru11_readmem_loop.simps) (simp add: c_def Let_def)
    have cmd: "emits_ok (tru11_command P port TALKER_READ_CMD (of_nat c) (addr st)) (\<lambda>_. True)"
      by (rule emits_ok_port[OF transfers_tru11_command[OF Bt Br] port_only_tru11_command[OF Bt]])
    have rx: "emits_ok (rx_chunk P port c) (\<lambda>_. True)"
      by (rule emits_ok_port[OF transfers_rx_chunk[OF Br] port_only_rx_chunk])
    have rest: "emits_ok (bind_io (readmem_bytes P rs st)
                 (\<lambda>st'. tru11_readmem_loop P port (n - c) st')) checksum_inv" for rs
    proof (rule emits_ok_bind[OF emits_ok_bytes[OF less.prems]])
      fix st'
      assume "checksum_inv st'"
      moreover have "n - c < n" using c by simp
      ultimately show "emits_ok (tru11_readmem_loop P port (n - c) st') checksum_inv"
        by (rule less.IH[rotated])
    qed
    show ?thesis
      unfolding e
      by (rule emits_ok_bind[OF cmd], rule emits_ok_bind[OF rx], rule rest)
  qed
qed

lemma emits_ok_tru11_readmem:
  assumes Bt: "1 \<le> serial_txbuf_size P" and Br: "1 \<le> serial_rxbuf_size P"
  shows "emits_ok (tru11_readmem P port) (\<lambda>_. True)"
proof -
  have s0: "emits_ok (write_file S0) (\<lambda>_. True)"
    by (rule emits_ok_write_file) simp
  have loop: "emits_ok (tru11_readmem_loop P port
             (unat (to_addr P - from_addr P + 1)) (readmem_init P)) checksum_inv"
    by (rule emits_ok_tru11_loop[OF Bt Br checksum_inv_init])
  show ?thesis
    unfolding tru11_readmem_def
    by (rule emits_ok_bind[OF s0], rule emits_ok_bind[OF loop], rule emits_ok_finish)
qed

section \<open>Reading memory to a file: the records\<close>

lemma emits_ok_tbug11_loop:
  assumes Bt: "1 \<le> serial_txbuf_size P" and Br: "1 \<le> serial_rxbuf_size P"
  shows "checksum_inv st \<Longrightarrow> 256 \<le> length txbuf \<Longrightarrow>
         emits_ok (tbug11_readmem_loop P port todo txbuf (c0, rem0, rx0) st) checksum_inv"
proof (induction todo arbitrary: txbuf c0 rem0 rx0 st)
  case 0
  have e: "tbug11_readmem_loop P port 0 txbuf (c0, rem0, rx0) st = return_io st"
    by (subst tbug11_readmem_loop.simps) simp
  show ?case unfolding e by (rule emits_ok_return) (rule "0.prems"(1))
next
  case (Suc k)
  define c where "c = (if rem0 > 256 then 256 else rem0)"
  define txbuf1 where "txbuf1 = txbuf[0 := of_nat c, 1 := addr_hi (addr st), 2 := addr_lo (addr st)]"
  define fetch :: "(byte list \<times> nat \<times> nat \<times> byte list, 'a) io" where
    "fetch = (if c0 = 0 then
                bind_io (tbug11_command P port TALKER_READ_CMD (of_nat c) (addr st))
                  (\<lambda>_. bind_io (tbug11_txrx_chunk P port txbuf1 c TALKER_ECHO_IGNORE)
                     (\<lambda>rs. return_io (txbuf1, (c, rem0 - c, rs))))
              else return_io (txbuf, (c0, rem0, rx0)))"
  have e: "tbug11_readmem_loop P port (Suc k) txbuf (c0, rem0, rx0) st =
           bind_io fetch
             (\<lambda>(txbuf', (chunklen, remaining, rxbuf_p)).
                bind_io (readmem_store P (hd rxbuf_p) st)
                  (\<lambda>st'. tbug11_readmem_loop P port k txbuf'
                        ((if chunklen = 0 then 2 ^ 32 - 1 else chunklen - 1), remaining, tl rxbuf_p)
                        st'))"
    by (subst tbug11_readmem_loop.simps) (simp add: fetch_def c_def txbuf1_def Let_def)
  have len1: "256 \<le> length txbuf1" using Suc.prems(2) by (simp add: txbuf1_def)
  have f: "emits_ok fetch (\<lambda>a. 256 \<le> length (fst a))"
  proof (cases "c0 = 0")
    case False
    then have "fetch = return_io (txbuf, (c0, rem0, rx0))" by (simp add: fetch_def)
    moreover have "emits_ok (return_io (txbuf, (c0, rem0, rx0)) :: (byte list \<times> nat \<times> nat \<times> byte list, 'a) io)
                     (\<lambda>a. 256 \<le> length (fst a))"
      by (rule emits_ok_return) (simp add: Suc.prems(2))
    ultimately show ?thesis by simp
  next
    case True
    then have fe: "fetch = bind_io (tbug11_command P port TALKER_READ_CMD (of_nat c) (addr st))
                  (\<lambda>_. bind_io (tbug11_txrx_chunk P port txbuf1 c TALKER_ECHO_IGNORE)
                     (\<lambda>rs. return_io (txbuf1, (c, rem0 - c, rs))))"
      by (simp add: fetch_def)
    have cmd: "emits_ok (tbug11_command P port TALKER_READ_CMD (of_nat c) (addr st)) (\<lambda>_. True)"
      by (rule emits_ok_port[OF transfers_tbug11_command[OF Bt Br] port_only_tbug11_command])
    have "c \<le> length txbuf1" using len1 by (simp add: c_def)
    then have tr: "emits_ok (tbug11_txrx_chunk P port txbuf1 c TALKER_ECHO_IGNORE) (\<lambda>_. True)"
      by (rule emits_ok_port[OF transfers_tbug11_txrx[OF Bt Br] port_only_tbug11_txrx])
    have ret: "emits_ok (return_io (txbuf1, (c, rem0 - c, rs)) :: (byte list \<times> nat \<times> nat \<times> byte list, 'a) io)
                 (\<lambda>a. 256 \<le> length (fst a))" for rs
      by (rule emits_ok_return) (simp add: len1)
    show ?thesis
      unfolding fe
      by (rule emits_ok_bind[OF cmd], rule emits_ok_bind[OF tr], rule ret)
  qed
  show ?case
    unfolding e
  proof (rule emits_ok_bind[OF f])
    fix a :: "byte list \<times> nat \<times> nat \<times> byte list"
    assume l: "256 \<le> length (fst a)"
    obtain tx' cl rm rx where a: "a = (tx', (cl, rm, rx))" by (cases a) auto
    have "emits_ok (bind_io (readmem_store P (hd rx) st)
                  (\<lambda>st'. tbug11_readmem_loop P port k tx'
                        ((if cl = 0 then 2 ^ 32 - 1 else cl - 1), rm, tl rx) st')) checksum_inv"
    proof (rule emits_ok_bind[OF emits_ok_store[OF Suc.prems(1)]])
      fix st'
      assume "checksum_inv st'"
      moreover have "256 \<le> length tx'" using l a by simp
      ultimately show "emits_ok (tbug11_readmem_loop P port k tx'
                        ((if cl = 0 then 2 ^ 32 - 1 else cl - 1), rm, tl rx) st') checksum_inv"
        by (rule Suc.IH)
    qed
    then show "emits_ok
          (case a of
           (txbuf', chunklen, remaining, rxbuf_p) \<Rightarrow>
             bind_io (readmem_store P (hd rxbuf_p) st)
              (\<lambda>st'. tbug11_readmem_loop P port k txbuf'
                        ((if chunklen = 0 then 2 ^ 32 - 1 else chunklen - 1), remaining, tl rxbuf_p)
                        st'))
          checksum_inv"
      by (simp add: a)
  qed
qed

lemma emits_ok_tbug11_readmem:
  assumes Bt: "1 \<le> serial_txbuf_size P" and Br: "1 \<le> serial_rxbuf_size P"
    and len: "256 \<le> length txbuf0"
  shows "emits_ok (tbug11_readmem P port txbuf0) (\<lambda>_. True)"
proof -
  have s0: "emits_ok (write_file S0) (\<lambda>_. True)"
    by (rule emits_ok_write_file) simp
  have loop: "emits_ok (tbug11_readmem_loop P port
             (unat (to_addr P - from_addr P + 1)) txbuf0
             (0, unat (to_addr P - from_addr P + 1), []) (readmem_init P)) checksum_inv"
    by (rule emits_ok_tbug11_loop[OF Bt Br checksum_inv_init len])
  show ?thesis
    unfolding tbug11_readmem_def
    by (rule emits_ok_bind[OF s0], rule emits_ok_bind[OF loop], rule emits_ok_finish)
qed

lemma files_S1_ok:
  assumes "list_all srec_ok (files evs)" and "WRITE_FILE (S1 n a dat ck) \<in> set evs"
  shows "(n + unat (addr_hi a) + unat (addr_lo a) + sum_list (map unat dat) + unat ck) mod 256 = 255 \<and>
         unat ck = 255 - (n + unat (addr_hi a) + unat (addr_lo a) + sum_list (map unat dat)) mod 256"
proof -
  from assms(2) have "S1 n a dat ck \<in> set (files evs)"
    by (force simp: files_def)
  moreover from assms(1) have "\<forall>x\<in>set (files evs). srec_ok x"
    by (simp only: list_all_iff)
  ultimately have "srec_ok (S1 n a dat ck)"
    by blast
  then show ?thesis unfolding srec_ok.simps .
qed

text \<open>
  Claim C7. With chunk sizes of at least 1, reading memory to a file returns in both
  programs, and every S1 record it has written obeys the checksum rule: the byte count,
  the two address bytes, the data bytes and the checksum add up to \<open>0xFF\<close> modulo 256,
  the checksum being \<open>0xFF\<close> less the sum of the others modulo 256. This holds of the
  records written when a line is full and of the one written for the bytes left over,
  whatever the transport delivers and also when the run ends with an exception.
\<close>

theorem readmem_checksum:
  assumes "1 \<le> serial_txbuf_size P" and "1 \<le> serial_rxbuf_size P" and "256 \<le> length txbuf0"
  shows "(\<exists>r d evs. tru11_readmem P port (d0, lg) = Some (r, (d, lg @ evs)) \<and>
            (\<forall>n a dat ck. WRITE_FILE (S1 n a dat ck) \<in> set evs \<longrightarrow>
               (n + unat (addr_hi a) + unat (addr_lo a) + sum_list (map unat dat) + unat ck) mod 256 = 255 \<and>
               unat ck = 255 - (n + unat (addr_hi a) + unat (addr_lo a) + sum_list (map unat dat)) mod 256)) \<and>
         (\<exists>r d evs. tbug11_readmem P port txbuf0 (d0, lg) = Some (r, (d, lg @ evs)) \<and>
            (\<forall>n a dat ck. WRITE_FILE (S1 n a dat ck) \<in> set evs \<longrightarrow>
               (n + unat (addr_hi a) + unat (addr_lo a) + sum_list (map unat dat) + unat ck) mod 256 = 255 \<and>
               unat ck = 255 - (n + unat (addr_hi a) + unat (addr_lo a) + sum_list (map unat dat)) mod 256))"
proof
  from emits_ok_tru11_readmem[OF assms(1,2), of port] obtain r d evs where
    run: "tru11_readmem P port (d0, lg) = Some (r, (d, lg @ evs))"
    and ok: "list_all srec_ok (files evs)"
    by (rule emits_okD)
  from ok have "\<forall>n a dat ck. WRITE_FILE (S1 n a dat ck) \<in> set evs \<longrightarrow>
               (n + unat (addr_hi a) + unat (addr_lo a) + sum_list (map unat dat) + unat ck) mod 256 = 255 \<and>
               unat ck = 255 - (n + unat (addr_hi a) + unat (addr_lo a) + sum_list (map unat dat)) mod 256"
    by (intro allI impI) (rule files_S1_ok)
  with run show "\<exists>r d evs. tru11_readmem P port (d0, lg) = Some (r, (d, lg @ evs)) \<and>
            (\<forall>n a dat ck. WRITE_FILE (S1 n a dat ck) \<in> set evs \<longrightarrow>
               (n + unat (addr_hi a) + unat (addr_lo a) + sum_list (map unat dat) + unat ck) mod 256 = 255 \<and>
               unat ck = 255 - (n + unat (addr_hi a) + unat (addr_lo a) + sum_list (map unat dat)) mod 256)"
    by blast
next
  from emits_ok_tbug11_readmem[OF assms, of port] obtain r d evs where
    run: "tbug11_readmem P port txbuf0 (d0, lg) = Some (r, (d, lg @ evs))"
    and ok: "list_all srec_ok (files evs)"
    by (rule emits_okD)
  from ok have "\<forall>n a dat ck. WRITE_FILE (S1 n a dat ck) \<in> set evs \<longrightarrow>
               (n + unat (addr_hi a) + unat (addr_lo a) + sum_list (map unat dat) + unat ck) mod 256 = 255 \<and>
               unat ck = 255 - (n + unat (addr_hi a) + unat (addr_lo a) + sum_list (map unat dat)) mod 256"
    by (intro allI impI) (rule files_S1_ok)
  with run show "\<exists>r d evs. tbug11_readmem P port txbuf0 (d0, lg) = Some (r, (d, lg @ evs)) \<and>
            (\<forall>n a dat ck. WRITE_FILE (S1 n a dat ck) \<in> set evs \<longrightarrow>
               (n + unat (addr_hi a) + unat (addr_lo a) + sum_list (map unat dat) + unat ck) mod 256 = 255 \<and>
               unat ck = 255 - (n + unat (addr_hi a) + unat (addr_lo a) + sum_list (map unat dat)) mod 256)"
    by blast
qed

lemma tru11_read_example_run:
  "tru11_readmem read_example (stream_port False) ([0x01, 0xAA, 0xBB, 0xCC], []) =
     Some (Inr (), ([],
       [WRITE_FILE S0, WRITE_PORT [0x01] (Some 1), READ_PORT 1 (Some [0x01]),
        WRITE_PORT [3, 0x10, 0x00] (Some 3), READ_PORT 3 (Some [0xAA, 0xBB, 0xCC]),
        WRITE_FILE (S1 5 0x1000 [0xAA, 0xBB] 0x85), WRITE_FILE (S1 4 0x1002 [0xCC] 0x1D),
        WRITE_FILE S9]))"
  by code_simp

lemma tbug11_read_example_run:
  "tbug11_readmem read_example (stream_port False) (replicate 256 0) ([0xFE, 0xAA, 0xBB, 0xCC], []) =
     Some (Inr (), ([],
       [WRITE_FILE S0, WRITE_PORT [0x01] (Some 1), READ_PORT 1 (Some [0xFE]),
        WRITE_PORT [3, 0x10, 0x00] (Some 3), WRITE_PORT [3, 0x10, 0x00] (Some 3),
        READ_PORT 3 (Some [0xAA, 0xBB, 0xCC]),
        WRITE_FILE (S1 5 0x1000 [0xAA, 0xBB] 0x85), WRITE_FILE (S1 4 0x1002 [0xCC] 0x1D),
        WRITE_FILE S9]))"
  by code_simp

text \<open>
  Three bytes \<open>0xAA\<close>, \<open>0xBB\<close>, \<open>0xCC\<close> read from \<open>0x1000\<close> with two bytes to a line:
  both programs write a full record and a record for the byte left over, with the
  checksums \<open>0x85\<close> and \<open>0x1D\<close>.
\<close>

theorem readmem_checksum_witness:
  "1 \<le> serial_txbuf_size read_example \<and> 1 \<le> serial_rxbuf_size read_example \<and>
   256 \<le> length (replicate 256 (0 :: byte)) \<and>
   tru11_readmem read_example (stream_port False) ([0x01, 0xAA, 0xBB, 0xCC], []) =
     Some (Inr (), ([],
       [WRITE_FILE S0, WRITE_PORT [0x01] (Some 1), READ_PORT 1 (Some [0x01]),
        WRITE_PORT [3, 0x10, 0x00] (Some 3), READ_PORT 3 (Some [0xAA, 0xBB, 0xCC]),
        WRITE_FILE (S1 5 0x1000 [0xAA, 0xBB] 0x85), WRITE_FILE (S1 4 0x1002 [0xCC] 0x1D),
        WRITE_FILE S9])) \<and>
   tbug11_readmem read_example (stream_port False) (replicate 256 0) ([0xFE, 0xAA, 0xBB, 0xCC], []) =
     Some (Inr (), ([],
       [WRITE_FILE S0, WRITE_PORT [0x01] (Some 1), READ_PORT 1 (Some [0xFE]),
        WRITE_PORT [3, 0x10, 0x00] (Some 3), WRITE_PORT [3, 0x10, 0x00] (Some 3),
        READ_PORT 3 (Some [0xAA, 0xBB, 0xCC]),
        WRITE_FILE (S1 5 0x1000 [0xAA, 0xBB] 0x85), WRITE_FILE (S1 4 0x1002 [0xCC] 0x1D),
        WRITE_FILE S9])) \<and>
   (5 + unat (addr_hi 0x1000) + unat (addr_lo 0x1000) + sum_list (map unat [0xAA, 0xBB :: byte]) +
      unat (0x85 :: byte)) mod 256 = 255 \<and>
   (4 + unat (addr_hi 0x1002) + unat (addr_lo 0x1002) + sum_list (map unat [0xCC :: byte]) +
      unat (0x1D :: byte)) mod 256 = 255"
proof -
  have h: "1 \<le> serial_txbuf_size read_example" "1 \<le> serial_rxbuf_size read_example"
    "256 \<le> length (replicate 256 (0 :: byte))"
    by (simp_all add: read_example_def params_with_def)
  note t1 = readmem_checksum[OF h, where port = "stream_port False"
      and ?d0.0 = "[0x01, 0xAA, 0xBB, 0xCC]" and lg = "[]"]
  note t2 = readmem_checksum[OF h, where port = "stream_port False"
      and ?d0.0 = "[0xFE, 0xAA, 0xBB, 0xCC]" and lg = "[]"]
  from conjunct1[OF t1] obtain r d evs where
    run: "tru11_readmem read_example (stream_port False) ([0x01, 0xAA, 0xBB, 0xCC], []) =
            Some (r, (d, [] @ evs))"
    and rule1: "\<forall>n a dat ck. WRITE_FILE (S1 n a dat ck) \<in> set evs \<longrightarrow>
               (n + unat (addr_hi a) + unat (addr_lo a) + sum_list (map unat dat) + unat ck) mod 256 = 255 \<and>
               unat ck = 255 - (n + unat (addr_hi a) + unat (addr_lo a) + sum_list (map unat dat)) mod 256"
    by blast
  from run have "WRITE_FILE (S1 5 0x1000 [0xAA, 0xBB] 0x85) \<in> set evs"
    unfolding tru11_read_example_run by auto
  with rule1 have s1: "(5 + unat (addr_hi 0x1000) + unat (addr_lo 0x1000) +
      sum_list (map unat [0xAA, 0xBB :: byte]) + unat (0x85 :: byte)) mod 256 = 255"
    by blast
  from conjunct2[OF t2] obtain r2 d2 evs2 where
    run2: "tbug11_readmem read_example (stream_port False) (replicate 256 0)
             ([0xFE, 0xAA, 0xBB, 0xCC], []) = Some (r2, (d2, [] @ evs2))"
    and rule2: "\<forall>n a dat ck. WRITE_FILE (S1 n a dat ck) \<in> set evs2 \<longrightarrow>
               (n + unat (addr_hi a) + unat (addr_lo a) + sum_list (map unat dat) + unat ck) mod 256 = 255 \<and>
               unat ck = 255 - (n + unat (addr_hi a) + unat (addr_lo a) + sum_list (map unat dat)) mod 256"
    by blast
  from run2 have "WRITE_FILE (S1 4 0x1002 [0xCC] 0x1D) \<in> set evs2"
    unfolding tbug11_read_example_run by auto
  with rule2 have s2: "(4 + unat (addr_hi 0x1002) + unat (addr_lo 0x1002) +
      sum_list (map unat [0xCC :: byte]) + unat (0x1D :: byte)) mod 256 = 255"
    by blast
  from h tru11_read_example_run tbug11_read_example_run s1 s2 show ?thesis
    by (intro conjI)
qed

end
